theory Spec2Isabelle
  imports Main
begin

section \<open>Calendar Tagger: staging cache, write-back synchronisation, tag derivation\<close>

text \<open>
  A shallow embedding of \<^verbatim>\<open>calendarTagger.js\<close>. Every function below carries the name of
  the JavaScript function it embeds; the services the script calls (CacheService,
  PropertiesService, the Calendar advanced service, SpreadsheetApp) are fields of one
  explicit \<open>state\<close> record that each function takes and returns.
\<close>

subsection \<open>Exceptions and JSON text\<close>

text \<open>
  The JavaScript exceptions that can arise: \<^verbatim>\<open>JSON.parse\<close> raising on text that is not
  JSON, a property access on \<^verbatim>\<open>undefined\<close> or a method call on a value without that
  method, and an error raised by a remote service.
\<close>

datatype exn = SyntaxError | TypeError | ServiceError

text \<open>
  The cache, the user properties and an event's private extended property hold text that
  the script writes with \<^verbatim>\<open>JSON.stringify\<close> and reads back with \<^verbatim>\<open>JSON.parse\<close>. Such a text
  is represented by what \<^verbatim>\<open>JSON.parse\<close> makes of it: \<open>Malformed\<close> when it raises
  SyntaxError, \<open>Parsed v\<close> when it returns \<open>v\<close>; \<^verbatim>\<open>JSON.stringify(v)\<close> is \<open>Parsed v\<close>.
  The values are the two shapes the script writes: an array of strings (a tag list) and
  an object with string values (the ModifiedEvents index, properties in enumeration
  order).
\<close>

datatype 'a json_text = Malformed | Parsed 'a

type_synonym tags_text = "string list json_text"
type_synonym index_text = "(string \<times> string) list json_text"

subsection \<open>The remote calendar\<close>

record attendee =
  email :: "string option"

text \<open>
  \<^verbatim>\<open>event.extendedProperties\<close> is absent, or an object whose \<^verbatim>\<open>private\<close> section is absent
  (an event that carries shared properties only) or present; of the private section only
  the \<^verbatim>\<open>selectedTags\<close> entry is modelled.
\<close>

record privateProperties =
  selectedTags :: "tags_text option"

record extendedProps =
  privateSection :: "privateProperties option"

record event =
  summary :: "string option"
  attendees :: "attendee list option"
  extendedProperties :: "extendedProps option"

subsection \<open>The configuration spreadsheet\<close>

text \<open>
  A cell value as \<^verbatim>\<open>getValues()\<close> returns it: a string (\<open>''''\<close> for an empty cell), or a
  number, boolean or date, of which only the truthiness matters here.
\<close>

datatype cellval = Text string | NonText bool

record sheet =
  lastRow :: nat
  hasColumn :: "string \<Rightarrow> bool"
  cellAt :: "string \<Rightarrow> nat \<Rightarrow> cellval"

subsection \<open>The state the script runs against\<close>

text \<open>
  The user cache is three fields: the key \<^verbatim>\<open>calendarId\<close> (plain text), the key
  \<^verbatim>\<open>ModifiedEvents\<close> (the index of modified staging keys) and the staging entries, keyed
  by staging key. Staging keys are built by \<^verbatim>\<open>onCalendarEventOpen\<close> and always start with
  \<^verbatim>\<open>selectedTags_\<close>, so they never are one of the other two keys. Expiry of cache entries
  is not modelled: an expired entry is an absent one.
\<close>

record state =
  cache_calendarId :: "string option"
  cache_ModifiedEvents :: "index_text option"
  cache_staged :: "string \<rightharpoonup> tags_text"
  prop_spreadsheetId :: "string option"
  prop_sheetName :: "string option"
  prop_column :: "string option"
  prop_emailDomainColumn :: "string option"
  prop_userTags :: "tags_text option"
  Calendar_Events :: "string \<times> string \<rightharpoonup> event"
  Calendar_readOnly :: "(string \<times> string) set"
  Spreadsheets :: "string \<rightharpoonup> (string \<rightharpoonup> sheet)"

definition DEFAULT_USER_TAGS :: "string list" where
  "DEFAULT_USER_TAGS = [''#Work'', ''#Personal'', ''#Internal_Meeting'', ''#External_Meeting'']"

subsection \<open>JavaScript helpers\<close>

text \<open>\<^verbatim>\<open>s.startsWith(p)\<close>.\<close>

definition startsWith :: "string \<Rightarrow> string \<Rightarrow> bool" where
  "startsWith s p = (take (length p) s = p)"

text \<open>
  A JavaScript \<^verbatim>\<open>Set\<close> of strings is the list of its members in insertion order.
  \<open>Set_add\<close>, \<open>Set_delete\<close>, \<open>new_Set\<close> are \<^verbatim>\<open>add\<close>, \<^verbatim>\<open>delete\<close> and \<^verbatim>\<open>new Set(array)\<close>;
  \<^verbatim>\<open>Array.from(set)\<close> is the list itself.
\<close>

definition Set_add :: "string \<Rightarrow> string list \<Rightarrow> string list" where
  "Set_add x s = (if x \<in> set s then s else s @ [x])"

definition Set_delete :: "string \<Rightarrow> string list \<Rightarrow> string list" where
  "Set_delete x s = filter (\<lambda>y. y \<noteq> x) s"

definition new_Set :: "string list \<Rightarrow> string list" where
  "new_Set xs = fold Set_add xs []"

text \<open>\<^verbatim>\<open>obj[key] = value\<close> on an object: an existing property keeps its place, a new one
  goes last.\<close>

fun assign :: "string \<Rightarrow> string \<Rightarrow> (string \<times> string) list \<Rightarrow> (string \<times> string) list" where
  "assign k v [] = [(k, v)]"
| "assign k v ((k', v') # ps) = (if k' = k then (k, v) # ps else (k', v') # assign k v ps)"

subsection \<open>The remote calendar's two operations\<close>

text \<open>
  \<^verbatim>\<open>Calendar.Events.get\<close> raises when there is no such event in that calendar;
  \<^verbatim>\<open>Calendar.Events.update\<close> raises when there is none or when the event may not be
  written, and otherwise replaces the stored record.
\<close>

definition Events_get :: "state \<Rightarrow> string \<Rightarrow> string \<Rightarrow> exn + event" where
  "Events_get s calendarId eventId =
     (case Calendar_Events s (calendarId, eventId) of
        None \<Rightarrow> Inl ServiceError
      | Some ev \<Rightarrow> Inr ev)"

definition Events_update :: "state \<Rightarrow> event \<Rightarrow> string \<Rightarrow> string \<Rightarrow> exn + state" where
  "Events_update s ev calendarId eventId =
     (if Calendar_Events s (calendarId, eventId) = None
         \<or> (calendarId, eventId) \<in> Calendar_readOnly s
      then Inl ServiceError
      else Inr (s\<lparr>Calendar_Events := (Calendar_Events s)((calendarId, eventId) \<mapsto> ev)\<rparr>))"

subsection \<open>The synchronisation engine: \<^verbatim>\<open>saveTagsFromCache\<close>\<close>

text \<open>
  Line 307: the event a staging key addresses. \<open>None\<close> is JavaScript's \<^verbatim>\<open>null\<close>; the
  later test \<^verbatim>\<open>if (eventId)\<close> also takes the empty string for "no event".
\<close>

definition eventIdOf :: "string \<Rightarrow> string option" where
  "eventIdOf cacheKey =
     (if startsWith cacheKey ''selectedTags_new_'' then None
      else Some (drop (length ''selectedTags_'') cacheKey))"

text \<open>
  Lines 321-325 on a fetched event: \<^verbatim>\<open>event.extendedProperties || { private: {} }\<close>, then
  the assignment to \<^verbatim>\<open>.private.selectedTags\<close>, which raises TypeError when the event has
  extended properties without a private section.
\<close>

definition setSelectedTags :: "event \<Rightarrow> string list \<Rightarrow> exn + event" where
  "setSelectedTags ev tags =
     (let ext = (case extendedProperties ev of
                   None \<Rightarrow> \<lparr>privateSection = Some \<lparr>selectedTags = None\<rparr>\<rparr>
                 | Some x \<Rightarrow> x)
      in case privateSection ext of
           None \<Rightarrow> Inl TypeError
         | Some p \<Rightarrow>
             Inr (ev\<lparr>extendedProperties :=
                       Some (ext\<lparr>privateSection := Some (p\<lparr>selectedTags := Some (Parsed tags)\<rparr>)\<rparr>)\<rparr>))"

text \<open>
  The body of the \<^verbatim>\<open>try\<close> block (lines 319-345) for one key: the new index and state when
  it runs to its end or leaves by \<^verbatim>\<open>continue\<close>, the exception when a statement raises.
\<close>

definition tryFlush ::
  "string \<Rightarrow> string \<Rightarrow> string option \<Rightarrow> string list \<Rightarrow> (string \<times> string) list \<times> state
     \<Rightarrow> exn + (string \<times> string) list \<times> state" where
  "tryFlush calendarId cacheKey eventId tags = (\<lambda>(stack, s).
     (case eventId of
        None \<Rightarrow> Inr (stack, s)
      | Some eid \<Rightarrow>
          if eid = [] then Inr (stack, s)
          else
            (case Events_get s calendarId eid of
               Inl e \<Rightarrow> Inl e
             | Inr ev \<Rightarrow>
                 (case setSelectedTags ev tags of
                    Inl e \<Rightarrow> Inl e
                  | Inr ev' \<Rightarrow>
                      (case Events_update s ev' calendarId eid of
                         Inl e \<Rightarrow> Inl e
                       | Inr s' \<Rightarrow>
                           Inr (assign cacheKey ''Clean'' stack,
                                s'\<lparr>cache_staged := (cache_staged s')(cacheKey := None)\<rparr>))))))"

text \<open>
  One iteration of the loop (lines 305-351). The staged text is parsed before the
  \<^verbatim>\<open>try\<close>, so a SyntaxError leaves the loop (\<open>Inl\<close>); an exception inside the \<^verbatim>\<open>try\<close> is
  caught and logged, and the index and state stay as they were.
\<close>

definition flushKey ::
  "string \<Rightarrow> string \<Rightarrow> (string \<times> string) list \<times> state
     \<Rightarrow> exn + (string \<times> string) list \<times> state" where
  "flushKey calendarId cacheKey = (\<lambda>(stack, s).
     if map_of stack cacheKey = Some ''Dirty'' then
       (case cache_staged s cacheKey of
          None \<Rightarrow> Inr (stack, s)
        | Some Malformed \<Rightarrow> Inl SyntaxError
        | Some (Parsed tags) \<Rightarrow>
            (case tryFlush calendarId cacheKey (eventIdOf cacheKey) tags (stack, s) of
               Inl e \<Rightarrow> Inr (stack, s)
             | Inr r \<Rightarrow> Inr r))
     else Inr (stack, s))"

text \<open>
  The \<^verbatim>\<open>for (cacheKey in stack)\<close> loop over the keys the index had when the loop began.
  An exception that leaves an iteration ends the loop; what earlier iterations did to the
  cache and to the calendar stays done.
\<close>

fun flushLoop ::
  "string \<Rightarrow> string list \<Rightarrow> (string \<times> string) list \<times> state
     \<Rightarrow> exn option \<times> (string \<times> string) list \<times> state" where
  "flushLoop calendarId [] st = (None, st)"
| "flushLoop calendarId (k # ks) st =
     (case flushKey calendarId k st of
        Inl e \<Rightarrow> (Some e, st)
      | Inr st' \<Rightarrow> flushLoop calendarId ks st')"

text \<open>
  \<^verbatim>\<open>saveTagsFromCache\<close>: the exception that escapes it, if any, and the state it leaves.
  An absent index parses to \<^verbatim>\<open>null\<close> and ends the pass; so does an absent or empty
  calendar id. The index is written back (line 354) only when the loop ran to its end.
\<close>

definition saveTagsFromCache :: "state \<Rightarrow> exn option \<times> state" where
  "saveTagsFromCache s =
     (case cache_ModifiedEvents s of
        None \<Rightarrow> (None, s)
      | Some Malformed \<Rightarrow> (Some SyntaxError, s)
      | Some (Parsed stack) \<Rightarrow>
          (case cache_calendarId s of
             None \<Rightarrow> (None, s)
           | Some calendarId \<Rightarrow>
               if calendarId = [] then (None, s)
               else
                 (case flushLoop calendarId (map fst stack) (stack, s) of
                    (Some e, stack', s') \<Rightarrow> (Some e, s')
                  | (None, stack', s') \<Rightarrow>
                      (None, s'\<lparr>cache_ModifiedEvents := Some (Parsed stack')\<rparr>))))"

subsection \<open>The index of modified keys: \<^verbatim>\<open>pushModifiedEvent\<close>\<close>

text \<open>
  Line 269 parses the index outside any \<^verbatim>\<open>try\<close>: malformed text raises. An absent index
  parses to \<^verbatim>\<open>null\<close> and is replaced by the empty object.
\<close>

definition pushModifiedEvent :: "string \<Rightarrow> state \<Rightarrow> exn + state" where
  "pushModifiedEvent cacheKey s =
     (case cache_ModifiedEvents s of
        Some Malformed \<Rightarrow> Inl SyntaxError
      | None \<Rightarrow> Inr (s\<lparr>cache_ModifiedEvents := Some (Parsed (assign cacheKey ''Dirty'' []))\<rparr>)
      | Some (Parsed stack) \<Rightarrow>
          Inr (s\<lparr>cache_ModifiedEvents := Some (Parsed (assign cacheKey ''Dirty'' stack))\<rparr>))"

subsection \<open>The tag catalog: \<^verbatim>\<open>fetchTagsFromSpreadsheet\<close>, \<^verbatim>\<open>getUserTags\<close>\<close>

text \<open>A configuration property is usable when it is present and not the empty string.\<close>

definition configured :: "string option \<Rightarrow> bool" where
  "configured p = (case p of None \<Rightarrow> False | Some v \<Rightarrow> v \<noteq> [])"

text \<open>\<^verbatim>\<open>x.startsWith('#') ? x : `#${x}`\<close>.\<close>

definition withSigil :: "string \<Rightarrow> string" where
  "withSigil x = (if startsWith x ''#'' then x else ''#'' @ x)"

text \<open>
  \<^verbatim>\<open>sheet.getRange(`${column}1:${column}${lastRow}`).getValues()\<close>: the cells of rows 1 to
  \<open>lastRow\<close> of that column; raises when the sheet has no such column.
\<close>

definition columnValues :: "sheet \<Rightarrow> string \<Rightarrow> exn + cellval list" where
  "columnValues sh column =
     (if hasColumn sh column then Inr (map (cellAt sh column) [0..<lastRow sh])
      else Inl ServiceError)"

text \<open>
  The \<^verbatim>\<open>values.forEach\<close> of lines 713-718 over the cells of the tag column, \<open>uniqueTags\<close>
  being the set built so far. A truthy cell that is not a string has no \<^verbatim>\<open>startsWith\<close>:
  TypeError.
\<close>

fun collectTags :: "cellval list \<Rightarrow> string list \<Rightarrow> exn + string list" where
  "collectTags [] uniqueTags = Inr uniqueTags"
| "collectTags (Text t # rows) uniqueTags =
     (if t = [] then collectTags rows uniqueTags
      else collectTags rows (Set_add (withSigil t) uniqueTags))"
| "collectTags (NonText truthy # rows) uniqueTags =
     (if truthy then Inl TypeError else collectTags rows uniqueTags)"

text \<open>The body of the \<^verbatim>\<open>try\<close> of \<^verbatim>\<open>fetchTagsFromSpreadsheet\<close> (lines 692-722).\<close>

definition readTagColumn :: "state \<Rightarrow> string \<Rightarrow> string \<Rightarrow> string \<Rightarrow> exn + string list" where
  "readTagColumn s spreadsheetId sheetName column =
     (case Spreadsheets s spreadsheetId of
        None \<Rightarrow> Inl ServiceError
      | Some spreadsheet \<Rightarrow>
          (case spreadsheet sheetName of
             None \<Rightarrow> Inr []
           | Some sh \<Rightarrow>
               if lastRow sh = 0 then Inr []
               else
                 (case columnValues sh column of
                    Inl e \<Rightarrow> Inl e
                  | Inr vals \<Rightarrow> collectTags vals [])))"

definition fetchTagsFromSpreadsheet :: "state \<Rightarrow> string list" where
  "fetchTagsFromSpreadsheet s =
     (if \<not> configured (prop_spreadsheetId s) \<or> \<not> configured (prop_sheetName s)
         \<or> \<not> configured (prop_column s)
      then []
      else
        (case readTagColumn s (the (prop_spreadsheetId s)) (the (prop_sheetName s))
                (the (prop_column s)) of
           Inl e \<Rightarrow> []
         | Inr tags \<Rightarrow> tags))"

text \<open>
  \<^verbatim>\<open>getUserTags\<close>: the memoised catalog when the property holds one; on a miss the
  defaults followed by the spreadsheet's tags, made unique, and stored. Line 653 parses
  the property outside any \<^verbatim>\<open>try\<close>.
\<close>

definition getUserTags :: "state \<Rightarrow> (exn + string list) \<times> state" where
  "getUserTags s =
     (case prop_userTags s of
        Some Malformed \<Rightarrow> (Inl SyntaxError, s)
      | Some (Parsed userTags) \<Rightarrow> (Inr userTags, s)
      | None \<Rightarrow>
          (let spreadsheetTags = fetchTagsFromSpreadsheet s;
               userTags = new_Set (DEFAULT_USER_TAGS @ spreadsheetTags)
           in (Inr userTags, s\<lparr>prop_userTags := Some (Parsed userTags)\<rparr>)))"

subsection \<open>Title extraction: \<^verbatim>\<open>extractTagFromTitle\<close>\<close>

text \<open>
  \<^verbatim>\<open>\w\<close> without the \<^verbatim>\<open>u\<close> flag is the ASCII letters, digits and underscore;
  \<^verbatim>\<open>toLowerCase\<close> is modelled on ASCII letters (strings are byte strings here).
\<close>

definition wordChar :: "char \<Rightarrow> bool" where
  "wordChar c =
     (c \<in> set ''abcdefghijklmnopqrstuvwxyzABCDEFGHIJKLMNOPQRSTUVWXYZ0123456789_'')"

definition toLowerChar :: "char \<Rightarrow> char" where
  "toLowerChar c =
     (case map_of (zip ''ABCDEFGHIJKLMNOPQRSTUVWXYZ'' ''abcdefghijklmnopqrstuvwxyz'') c of
        None \<Rightarrow> c
      | Some l \<Rightarrow> l)"

definition toLowerCase :: "string \<Rightarrow> string" where
  "toLowerCase s = map toLowerChar s"

text \<open>
  The successive results of \<^verbatim>\<open>tagRegex.exec(title)\<close> for \<^verbatim>\<open>/#\w+/gi\<close>: at a \<^verbatim>\<open>#\<close> that a
  word character follows, the match is the \<^verbatim>\<open>#\<close> with the longest run of word characters,
  and the search goes on behind it.
\<close>

function tagRegex_matches :: "string \<Rightarrow> string list" where
  "tagRegex_matches [] = []"
| "tagRegex_matches (c # cs) =
     (if c = CHR ''#'' \<and> takeWhile wordChar cs \<noteq> []
      then (c # takeWhile wordChar cs) # tagRegex_matches (dropWhile wordChar cs)
      else tagRegex_matches cs)"
  by pat_completeness auto
termination
  by (relation "measure length") (auto simp: length_dropWhile_le less_Suc_eq_le)

text \<open>Lines 401-410 for the matches in turn, against the catalog \<open>USER_TAGS\<close>.\<close>

fun matchingTags :: "string list \<Rightarrow> string list \<Rightarrow> string list" where
  "matchingTags USER_TAGS [] = []"
| "matchingTags USER_TAGS (extractedTag # rest) =
     (case find (\<lambda>tag. toLowerCase tag = toLowerCase extractedTag) USER_TAGS of
        None \<Rightarrow> matchingTags USER_TAGS rest
      | Some matchingTag \<Rightarrow>
          if matchingTag = [] then matchingTags USER_TAGS rest
          else matchingTag # matchingTags USER_TAGS rest)"

definition extractTagFromTitle :: "state \<Rightarrow> string option \<Rightarrow> (exn + string list) \<times> state" where
  "extractTagFromTitle s title =
     (case title of
        None \<Rightarrow> (Inr [], s)
      | Some t \<Rightarrow>
          if t = [] then (Inr [], s)
          else
            (case getUserTags s of
               (Inl e, s') \<Rightarrow> (Inl e, s')
             | (Inr USER_TAGS, s') \<Rightarrow> (Inr (matchingTags USER_TAGS (tagRegex_matches t)), s')))"

subsection \<open>Attendee-domain lookup: \<^verbatim>\<open>getAutoTagFromAttendees\<close>\<close>

text \<open>\<^verbatim>\<open>s.split(c)\<close> for a one-character separator.\<close>

fun split :: "string \<Rightarrow> char \<Rightarrow> string list" where
  "split [] c = [[]]"
| "split (x # xs) c =
     (if x = c then [] # split xs c
      else (case split xs c of
              [] \<Rightarrow> [[x]]
            | y # ys \<Rightarrow> (x # y) # ys))"

text \<open>\<^verbatim>\<open>email.split('@')[1]\<close>; \<open>None\<close> is \<^verbatim>\<open>undefined\<close>.\<close>

definition domainOf :: "string \<Rightarrow> string option" where
  "domainOf addr =
     (case split addr (CHR ''@'') of
        _ # domain # _ \<Rightarrow> Some domain
      | _ \<Rightarrow> None)"

text \<open>How a loop body that can \<^verbatim>\<open>return\<close> or raise ends.\<close>

datatype 'a exit = Fallthrough | Returned 'a | Raised exn

text \<open>
  The inner loop (lines 629-635) over the rows of the two columns. \<^verbatim>\<open>===\<close> holds only
  between a string cell and an equal string. The tag cell: falsy gives \<^verbatim>\<open>null\<close>, a string
  gets its sigil, any other truthy value has no \<^verbatim>\<open>startsWith\<close>.
\<close>

definition tagOfCell :: "cellval \<Rightarrow> string option exit" where
  "tagOfCell cell =
     (case cell of
        Text t \<Rightarrow> if t = [] then Returned None else Returned (Some (withSigil t))
      | NonText truthy \<Rightarrow> if truthy then Raised TypeError else Returned None)"

fun matchRows :: "string option \<Rightarrow> cellval list \<Rightarrow> cellval list \<Rightarrow> string option exit" where
  "matchRows domain [] tagData = Fallthrough"
| "matchRows domain (d # emailDomainData) tagData =
     (if (case d of Text x \<Rightarrow> Some x = domain | NonText _ \<Rightarrow> False)
      then (case tagData of [] \<Rightarrow> Raised TypeError | t # _ \<Rightarrow> tagOfCell t)
      else matchRows domain emailDomainData (tl tagData))"

text \<open>The outer loop (lines 623-637) over the attendees.\<close>

fun scanAttendees :: "attendee list \<Rightarrow> cellval list \<Rightarrow> cellval list \<Rightarrow> string option exit" where
  "scanAttendees [] emailDomainData tagData = Fallthrough"
| "scanAttendees (a # rest) emailDomainData tagData =
     (case email a of
        None \<Rightarrow> scanAttendees rest emailDomainData tagData
      | Some e \<Rightarrow>
          if e = [] then scanAttendees rest emailDomainData tagData
          else
            (case matchRows (domainOf e) emailDomainData tagData of
               Fallthrough \<Rightarrow> scanAttendees rest emailDomainData tagData
             | Returned tag \<Rightarrow> Returned tag
             | Raised x \<Rightarrow> Raised x))"

text \<open>The body of the \<^verbatim>\<open>try\<close> (lines 607-637).\<close>

definition lookupDomainTag ::
  "state \<Rightarrow> string \<Rightarrow> string \<Rightarrow> string \<Rightarrow> string \<Rightarrow> attendee list \<Rightarrow> string option exit" where
  "lookupDomainTag s spreadsheetId sheetName tagColumn emailDomainColumn atts =
     (case Spreadsheets s spreadsheetId of
        None \<Rightarrow> Raised ServiceError
      | Some spreadsheet \<Rightarrow>
          (case spreadsheet sheetName of
             None \<Rightarrow> Returned None
           | Some sh \<Rightarrow>
               if lastRow sh = 0 then Returned None
               else
                 (case columnValues sh tagColumn of
                    Inl x \<Rightarrow> Raised x
                  | Inr tagData \<Rightarrow>
                      (case columnValues sh emailDomainColumn of
                         Inl x \<Rightarrow> Raised x
                       | Inr emailDomainData \<Rightarrow> scanAttendees atts emailDomainData tagData))))"

text \<open>
  \<^verbatim>\<open>getAutoTagFromAttendees\<close>: a caught exception and a loop that finds nothing both reach
  the final \<^verbatim>\<open>return null\<close>.
\<close>

definition getAutoTagFromAttendees :: "state \<Rightarrow> attendee list \<Rightarrow> string option" where
  "getAutoTagFromAttendees s atts =
     (if \<not> configured (prop_emailDomainColumn s) then None
      else if \<not> configured (prop_spreadsheetId s) \<or> \<not> configured (prop_sheetName s)
              \<or> \<not> configured (prop_column s) then None
      else
        (case lookupDomainTag s (the (prop_spreadsheetId s)) (the (prop_sheetName s))
                (the (prop_column s)) (the (prop_emailDomainColumn s)) atts of
           Returned tag \<Rightarrow> tag
         | Fallthrough \<Rightarrow> None
         | Raised x \<Rightarrow> None))"

subsection \<open>The panel: \<^verbatim>\<open>rebuildCard\<close>, \<^verbatim>\<open>handleTagClick\<close>\<close>

text \<open>
  Of a card only what the staging protocol shows through it is kept: the title text, the
  tags of the buttons in order, and the staging key every button carries.
\<close>

datatype card = ErrorCard string | TagCard string "string list" string

definition rebuildCard ::
  "state \<Rightarrow> string list \<Rightarrow> string \<Rightarrow> string option \<Rightarrow> (exn + card) \<times> state" where
  "rebuildCard s selected cacheKey title =
     (case getUserTags s of
        (Inl x, s') \<Rightarrow> (Inl x, s')
      | (Inr tags, s') \<Rightarrow>
          (let USER_TAGS = new_Set tags
           in (Inr (TagCard (case title of None \<Rightarrow> [] | Some t \<Rightarrow> t)
                      (selected @ filter (\<lambda>tag. tag \<notin> set selected) USER_TAGS) cacheKey),
               s')))"

text \<open>
  Lines 166-172: the staged set as \<^verbatim>\<open>handleTagClick\<close> reads it. An absent entry parses
  to \<^verbatim>\<open>null\<close> and \<^verbatim>\<open>new Set(null)\<close> is empty; a SyntaxError is caught.
\<close>

definition stagedSet :: "state \<Rightarrow> string \<Rightarrow> string list" where
  "stagedSet s cacheKey =
     (case cache_staged s cacheKey of
        None \<Rightarrow> []
      | Some Malformed \<Rightarrow> []
      | Some (Parsed tags) \<Rightarrow> new_Set tags)"

text \<open>Line 174.\<close>

definition toggle :: "string \<Rightarrow> string list \<Rightarrow> string list" where
  "toggle clickedTag selected =
     (if clickedTag \<in> set selected then Set_delete clickedTag selected
      else Set_add clickedTag selected)"

text \<open>
  \<^verbatim>\<open>handleTagClick\<close>, given \<^verbatim>\<open>e.parameters.tag\<close> and \<^verbatim>\<open>e.parameters.cacheKey\<close>. The cache
  is written before \<^verbatim>\<open>pushModifiedEvent\<close> runs, so that write stays when the latter raises.
\<close>

definition handleTagClick :: "state \<Rightarrow> string \<Rightarrow> string option \<Rightarrow> (exn + card) \<times> state" where
  "handleTagClick s clickedTag cacheKeyParam =
     (if \<not> configured cacheKeyParam then (Inr (ErrorCard ''Cache Key is missing.''), s)
      else
        (let cacheKey = the cacheKeyParam;
             selected = toggle clickedTag (stagedSet s cacheKey);
             s1 = s\<lparr>cache_staged := (cache_staged s)(cacheKey \<mapsto> Parsed selected)\<rparr>
         in case pushModifiedEvent cacheKey s1 of
              Inl x \<Rightarrow> (Inl x, s1)
            | Inr s2 \<Rightarrow> rebuildCard s2 selected cacheKey None))"

subsection \<open>Opening an event: \<^verbatim>\<open>loadSelectedTags\<close>, \<^verbatim>\<open>onCalendarEventOpen\<close>\<close>

text \<open>
  \<^verbatim>\<open>loadSelectedTags\<close>: the tags an existing event carries, the empty set for a new event,
  for an event that cannot be fetched or has none, and when the stored text does not parse
  (the parse is inside the \<^verbatim>\<open>try\<close>).
\<close>

definition loadSelectedTags :: "state \<Rightarrow> string \<Rightarrow> string option \<Rightarrow> string list" where
  "loadSelectedTags s calendarId eventId =
     (if \<not> configured eventId then []
      else
        (case Events_get s calendarId (the eventId) of
           Inl x \<Rightarrow> []
         | Inr ev \<Rightarrow>
             (case extendedProperties ev of
                None \<Rightarrow> []
              | Some ext \<Rightarrow>
                  (case privateSection ext of
                     None \<Rightarrow> []
                   | Some p \<Rightarrow>
                       (case selectedTags p of
                          None \<Rightarrow> []
                        | Some Malformed \<Rightarrow> []
                        | Some (Parsed tags) \<Rightarrow> new_Set tags)))))"

text \<open>\<^verbatim>\<open>s.trim()\<close>, on ASCII white space.\<close>

definition whiteSpace :: "char \<Rightarrow> bool" where
  "whiteSpace c = (c \<in> {CHR '' '', CHR 0x09, CHR 0x0A, CHR 0x0B, CHR 0x0C, CHR 0x0D})"

definition trim :: "string \<Rightarrow> string" where
  "trim s = rev (dropWhile whiteSpace (rev (dropWhile whiteSpace s)))"

text \<open>
  Lines 39-52: the event id, title and attendees after the first fetch. A fetch that
  raises makes the event a new one.
\<close>

definition fetchForOpen ::
  "state \<Rightarrow> string option \<Rightarrow> string option \<Rightarrow> string option \<times> string option \<times> attendee list" where
  "fetchForOpen s calendarId eventId =
     (if \<not> configured eventId then (None, None, [])
      else
        (case (case calendarId of
                 None \<Rightarrow> Inl ServiceError
               | Some c \<Rightarrow> Events_get s c (the eventId)) of
           Inl x \<Rightarrow> (None, None, [])
         | Inr ev \<Rightarrow>
             (eventId, summary ev, (case attendees ev of None \<Rightarrow> [] | Some as \<Rightarrow> as))))"

text \<open>
  Lines 68-92, on a cache miss: the initial tag set, the title shown, and the state after
  the staging entry is written. \<^verbatim>\<open>extractTagFromTitle\<close> runs only for a new event or an
  empty loaded set; \<^verbatim>\<open>getAutoTagFromAttendees\<close> runs in every case.
\<close>

definition initialiseTags ::
  "state \<Rightarrow> string \<Rightarrow> string option \<Rightarrow> string option \<Rightarrow> attendee list \<Rightarrow> string
     \<Rightarrow> (exn + string list \<times> string option) \<times> state" where
  "initialiseTags s calendarId eventId eventTitle atts cacheKey =
     (let loaded = loadSelectedTags s calendarId eventId;
          extraction =
            (if \<not> configured eventId \<or> loaded = [] then extractTagFromTitle s eventTitle
             else (Inr [], s))
      in case extraction of
           (Inl x, s1) \<Rightarrow> (Inl x, s1)
         | (Inr extractedTags, s1) \<Rightarrow>
             (let withTitleTags = fold Set_add extractedTags loaded;
                  autoTag = getAutoTagFromAttendees s1 atts;
                  selected =
                    (case autoTag of
                       None \<Rightarrow> withTitleTags
                     | Some tag \<Rightarrow> if tag = [] then withTitleTags else Set_add tag withTitleTags);
                  title =
                    (case autoTag of
                       None \<Rightarrow> eventTitle
                     | Some tag \<Rightarrow>
                         if tag = [] \<or> configured eventId then eventTitle
                         else Some (trim (tag @ '' '' @ (case eventTitle of None \<Rightarrow> []
                                                            | Some t \<Rightarrow> t))))
              in (Inr (selected, title),
                  s1\<lparr>cache_staged := (cache_staged s1)(cacheKey \<mapsto> Parsed selected)\<rparr>)))"

text \<open>
  \<^verbatim>\<open>onCalendarEventOpen\<close>, given \<^verbatim>\<open>e.calendar.calendarId\<close>, \<^verbatim>\<open>e.calendar.id\<close> and the value
  \<^verbatim>\<open>Utilities.getUuid()\<close> yields if it is called. Line 66 parses the staged text outside
  any \<^verbatim>\<open>try\<close>.
\<close>

definition onCalendarEventOpen ::
  "state \<Rightarrow> string option \<Rightarrow> string option \<Rightarrow> string \<Rightarrow> (exn + card) \<times> state" where
  "onCalendarEventOpen s calendarIdParam idParam uuid =
     (case fetchForOpen s calendarIdParam idParam of
        (eventId, eventTitle, atts) \<Rightarrow>
          if \<not> configured calendarIdParam
          then (Inr (ErrorCard ''Calendar ID is not available. Please try again later.''), s)
          else
            (let calendarId = the calendarIdParam;
                 s1 = s\<lparr>cache_calendarId := Some calendarId\<rparr>;
                 cacheKey = (case eventId of
                               None \<Rightarrow> ''selectedTags_new_'' @ uuid
                             | Some eid \<Rightarrow> ''selectedTags_'' @ eid)
             in case cache_staged s1 cacheKey of
                  Some Malformed \<Rightarrow> (Inl SyntaxError, s1)
                | Some (Parsed tags) \<Rightarrow> rebuildCard s1 (new_Set tags) cacheKey eventTitle
                | None \<Rightarrow>
                    (case initialiseTags s1 calendarId eventId eventTitle atts cacheKey of
                       (Inl x, s2) \<Rightarrow> (Inl x, s2)
                     | (Inr (selected, title), s2) \<Rightarrow>
                         rebuildCard s2 (new_Set selected) cacheKey title)))"

subsection \<open>Notions the properties are stated with\<close>

text \<open>The status the index of modified keys gives a staging key, if any.\<close>

definition dirtyStatus :: "state \<Rightarrow> string \<Rightarrow> string option" where
  "dirtyStatus s cacheKey =
     (case cache_ModifiedEvents s of
        Some (Parsed stack) \<Rightarrow> map_of stack cacheKey
      | _ \<Rightarrow> None)"

text \<open>The tag payload in the private extended properties of a remote event.\<close>

definition remotePayload :: "state \<Rightarrow> string \<Rightarrow> string \<Rightarrow> tags_text option" where
  "remotePayload s calendarId eventId =
     (case Calendar_Events s (calendarId, eventId) of
        None \<Rightarrow> None
      | Some ev \<Rightarrow>
          (case extendedProperties ev of
             None \<Rightarrow> None
           | Some ext \<Rightarrow>
               (case privateSection ext of
                  None \<Rightarrow> None
                | Some p \<Rightarrow> selectedTags p)))"

text \<open>An event whose extended properties, if it has any, have a private section.\<close>

definition writableExt :: "event \<Rightarrow> bool" where
  "writableExt ev =
     (case extendedProperties ev of
        None \<Rightarrow> True
      | Some ext \<Rightarrow> privateSection ext \<noteq> None)"

text \<open>
  A key whose flush goes through: a staged tag list is there, the key addresses an
  existing event, the calendar has it, its private section can be written and the
  calendar accepts the update.
\<close>

definition flushable :: "state \<Rightarrow> string \<Rightarrow> string \<Rightarrow> bool" where
  "flushable s calendarId cacheKey =
     (case cache_staged s cacheKey of
        Some (Parsed tags) \<Rightarrow>
          (case eventIdOf cacheKey of
             None \<Rightarrow> False
           | Some eid \<Rightarrow>
               eid \<noteq> [] \<and>
               (case Calendar_Events s (calendarId, eid) of
                  None \<Rightarrow> False
                | Some ev \<Rightarrow> writableExt ev \<and> (calendarId, eid) \<notin> Calendar_readOnly s))
      | _ \<Rightarrow> False)"

text \<open>A key of an existing event for which the fetch or the update raises.\<close>

definition remoteFails :: "state \<Rightarrow> string \<Rightarrow> string \<Rightarrow> bool" where
  "remoteFails s calendarId cacheKey =
     (case eventIdOf cacheKey of
        None \<Rightarrow> False
      | Some eid \<Rightarrow>
          eid \<noteq> [] \<and> (Calendar_Events s (calendarId, eid) = None
                      \<or> (calendarId, eid) \<in> Calendar_readOnly s))"

text \<open>The state after \<open>n\<close> runs of the scheduled trigger, one after the other.\<close>

fun syncPasses :: "nat \<Rightarrow> state \<Rightarrow> state" where
  "syncPasses 0 s = s"
| "syncPasses (Suc n) s = syncPasses n (snd (saveTagsFromCache s))"

text \<open>
  The tokens of the form \<^verbatim>\<open>#\<close>\<open>word characters\<close> that occur in a title: at every \<^verbatim>\<open>#\<close> that a
  word character follows, the \<^verbatim>\<open>#\<close> with the whole run of word characters behind it.
\<close>

fun hashTokens :: "string \<Rightarrow> string list" where
  "hashTokens [] = []"
| "hashTokens (c # cs) =
     (if c = CHR ''#'' \<and> takeWhile wordChar cs \<noteq> [] then [c # takeWhile wordChar cs] else [])
     @ hashTokens cs"

text \<open>The first tag of the catalog that equals a token when case is ignored.\<close>

definition firstMatch :: "string list \<Rightarrow> string \<Rightarrow> string option" where
  "firstMatch catalog token = find (\<lambda>tag. toLowerCase tag = toLowerCase token) catalog"

text \<open>A catalog in which no two different tags are equal when case is ignored.\<close>

definition caseInsensitivelyDistinct :: "string list \<Rightarrow> bool" where
  "caseInsensitivelyDistinct catalog =
     (\<forall>a\<in>set catalog. \<forall>b\<in>set catalog. toLowerCase a = toLowerCase b \<longrightarrow> a = b)"

text \<open>The tags title extraction yields for a title (none if it raises).\<close>

definition titleTags :: "state \<Rightarrow> string option \<Rightarrow> string list" where
  "titleTags s title =
     (case fst (extractTagFromTitle s title) of Inl x \<Rightarrow> [] | Inr tags \<Rightarrow> tags)"

text \<open>
  The domain of an email address in the spec's words: the substring after the \<^verbatim>\<open>@\<close>.
\<close>

definition afterAt :: "string \<Rightarrow> string option" where
  "afterAt addr =
     (if CHR ''@'' \<in> set addr then Some (tl (dropWhile (\<lambda>c. c \<noteq> CHR ''@'') addr)) else None)"

definition attendeeDomain :: "attendee \<Rightarrow> string option" where
  "attendeeDomain a =
     (case email a of
        None \<Rightarrow> None
      | Some e \<Rightarrow> if e = [] then None else afterAt e)"

text \<open>
  The row the spec's lookup takes its tag from: the first row, in row order, whose domain
  cell is the domain of some attendee's email.
\<close>

definition firstRowForAnyAttendee ::
  "attendee list \<Rightarrow> (cellval \<times> cellval) list \<Rightarrow> (cellval \<times> cellval) option" where
  "firstRowForAnyAttendee atts rows =
     find (\<lambda>row. list_ex (\<lambda>a. case attendeeDomain a of
                                 None \<Rightarrow> False
                               | Some d \<Rightarrow> fst row = Text d) atts) rows"

text \<open>
  The part of an address between its first \<^verbatim>\<open>@\<close> and the next \<^verbatim>\<open>@\<close>, or the end of the
  address when there is no other; none for an address without \<^verbatim>\<open>@\<close>.
\<close>

definition domainPart :: "string \<Rightarrow> string option" where
  "domainPart addr =
     (if CHR ''@'' \<in> set addr
      then Some (takeWhile (\<lambda>c. c \<noteq> CHR ''@'') (tl (dropWhile (\<lambda>c. c \<noteq> CHR ''@'') addr)))
      else None)"

text \<open>
  The row of an attendee: the first row, in row order, whose domain cell is the domain
  part of the attendee's email.
\<close>

definition rowOf :: "(cellval \<times> cellval) list \<Rightarrow> attendee \<Rightarrow> (cellval \<times> cellval) option" where
  "rowOf rows a =
     (case email a of
        None \<Rightarrow> None
      | Some e \<Rightarrow>
          if e = [] then None
          else (case domainPart e of
                  None \<Rightarrow> None
                | Some d \<Rightarrow> find (\<lambda>row. fst row = Text d) rows))"

text \<open>
  The row that decides the lookup: the attendees are taken in list order, and the first
  attendee that has a row decides, with its row.
\<close>

definition decidingRow ::
  "attendee list \<Rightarrow> (cellval \<times> cellval) list \<Rightarrow> (cellval \<times> cellval) option" where
  "decidingRow atts rows =
     (case find (\<lambda>a. rowOf rows a \<noteq> None) atts of
        None \<Rightarrow> None
      | Some a \<Rightarrow> rowOf rows a)"

text \<open>The domain the lookup takes for an attendee (lines 624-626), if it takes one.\<close>

definition emailDomain :: "attendee \<Rightarrow> string option" where
  "emailDomain a =
     (case email a of
        None \<Rightarrow> None
      | Some e \<Rightarrow> if e = [] then None else domainOf e)"

text \<open>
  The configured domain-to-tag table: the rows (domain cell, tag cell) of the sheet the
  four properties point at; \<open>None\<close> when a property is missing, the spreadsheet cannot be
  opened, the sheet is missing or empty, or a column cannot be read.
\<close>

definition domainTable :: "state \<Rightarrow> (cellval \<times> cellval) list option" where
  "domainTable s =
     (if configured (prop_spreadsheetId s) \<and> configured (prop_sheetName s)
         \<and> configured (prop_column s) \<and> configured (prop_emailDomainColumn s)
      then
        (case Spreadsheets s (the (prop_spreadsheetId s)) of
           None \<Rightarrow> None
         | Some spreadsheet \<Rightarrow>
             (case spreadsheet (the (prop_sheetName s)) of
                None \<Rightarrow> None
              | Some sh \<Rightarrow>
                  if lastRow sh = 0 \<or> \<not> hasColumn sh (the (prop_column s))
                     \<or> \<not> hasColumn sh (the (prop_emailDomainColumn s))
                  then None
                  else Some (zip (map (cellAt sh (the (prop_emailDomainColumn s)))
                                    [0..<lastRow sh])
                                 (map (cellAt sh (the (prop_column s))) [0..<lastRow sh]))))
      else None)"

text \<open>A list without its repetitions, each element where it first occurs.\<close>

definition firstOccurrences :: "string list \<Rightarrow> string list" where
  "firstOccurrences xs = rev (remdups (rev xs))"

text \<open>
  The cells of the configured tag column, in row order; \<open>None\<close> when the external source
  errors: a property is missing, the spreadsheet cannot be opened, the sheet is missing
  or the column cannot be read.
\<close>

definition tagCells :: "state \<Rightarrow> cellval list option" where
  "tagCells s =
     (if configured (prop_spreadsheetId s) \<and> configured (prop_sheetName s)
         \<and> configured (prop_column s)
      then
        (case Spreadsheets s (the (prop_spreadsheetId s)) of
           None \<Rightarrow> None
         | Some spreadsheet \<Rightarrow>
             (case spreadsheet (the (prop_sheetName s)) of
                None \<Rightarrow> None
              | Some sh \<Rightarrow>
                  if lastRow sh = 0 \<or> hasColumn sh (the (prop_column s))
                  then Some (map (cellAt sh (the (prop_column s))) [0..<lastRow sh])
                  else None))
      else None)"

text \<open>
  The tags of the text cells of a column: every non-empty text cell, with the sigil put
  in front if it is missing, in row order.
\<close>

definition cellTags :: "cellval list \<Rightarrow> string list" where
  "cellTags cells =
     concat (map (\<lambda>cell. case cell of
                            Text t \<Rightarrow> if t = [] then [] else [withSigil t]
                          | NonText b \<Rightarrow> []) cells)"

subsection \<open>Concrete states\<close>

definition blankState :: state where
  "blankState =
     \<lparr>cache_calendarId = None, cache_ModifiedEvents = None, cache_staged = Map.empty,
      prop_spreadsheetId = None, prop_sheetName = None, prop_column = None,
      prop_emailDomainColumn = None, prop_userTags = None,
      Calendar_Events = Map.empty, Calendar_readOnly = {}, Spreadsheets = Map.empty\<rparr>"

definition plainEvent :: event where
  "plainEvent = \<lparr>summary = Some ''Sync'', attendees = None, extendedProperties = None\<rparr>"

text \<open>Two dirty keys; the staged text of the first is not JSON.\<close>

definition malformedStagedState :: state where
  "malformedStagedState =
     blankState\<lparr>cache_calendarId := Some ''cal'',
       cache_ModifiedEvents :=
         Some (Parsed [(''selectedTags_e1'', ''Dirty''), (''selectedTags_e2'', ''Dirty'')]),
       cache_staged :=
         [''selectedTags_e1'' \<mapsto> Malformed, ''selectedTags_e2'' \<mapsto> Parsed [''#Work'']],
       Calendar_Events := [(''cal'', ''e1'') \<mapsto> plainEvent, (''cal'', ''e2'') \<mapsto> plainEvent]\<rparr>"

text \<open>One dirty key, whose event carries shared extended properties only.\<close>

definition sharedOnlyState :: state where
  "sharedOnlyState =
     blankState\<lparr>cache_calendarId := Some ''cal'',
       cache_ModifiedEvents := Some (Parsed [(''selectedTags_e1'', ''Dirty'')]),
       cache_staged := [''selectedTags_e1'' \<mapsto> Parsed [''#Work'']],
       Calendar_Events :=
         [(''cal'', ''e1'') \<mapsto>
            plainEvent\<lparr>extendedProperties := Some \<lparr>privateSection = None\<rparr>\<rparr>]\<rparr>"

text \<open>
  Four dirty keys: the event of the second is gone from the calendar (the fetch raises),
  the event of the third may not be written (the update raises).
\<close>

definition fourKeyStack :: "(string \<times> string) list" where
  "fourKeyStack =
     [(''selectedTags_e1'', ''Dirty''), (''selectedTags_e2'', ''Dirty''),
      (''selectedTags_e3'', ''Dirty''), (''selectedTags_e4'', ''Dirty'')]"

definition fourKeyState :: state where
  "fourKeyState =
     blankState\<lparr>cache_calendarId := Some ''cal'',
       cache_ModifiedEvents := Some (Parsed fourKeyStack),
       cache_staged :=
         [''selectedTags_e1'' \<mapsto> Parsed [''#Work''],
          ''selectedTags_e2'' \<mapsto> Parsed [''#Personal''],
          ''selectedTags_e3'' \<mapsto> Parsed [''#Internal_Meeting''],
          ''selectedTags_e4'' \<mapsto> Parsed [''#Work'', ''#Personal'']],
       Calendar_Events :=
         [(''cal'', ''e1'') \<mapsto> plainEvent, (''cal'', ''e3'') \<mapsto> plainEvent,
          (''cal'', ''e4'') \<mapsto> plainEvent],
       Calendar_readOnly := {(''cal'', ''e3'')}\<rparr>"

text \<open>A dirty key of an unsaved event next to a dirty key of an existing one.\<close>

definition newKeyState :: state where
  "newKeyState =
     blankState\<lparr>cache_calendarId := Some ''cal'',
       cache_ModifiedEvents :=
         Some (Parsed [(''selectedTags_new_u1'', ''Dirty''), (''selectedTags_e1'', ''Dirty'')]),
       cache_staged :=
         [''selectedTags_new_u1'' \<mapsto> Parsed [''#Personal''],
          ''selectedTags_e1'' \<mapsto> Parsed [''#Work'']],
       Calendar_Events := [(''cal'', ''e1'') \<mapsto> plainEvent]\<rparr>"


text \<open>A key that the last pass flushed: Clean in the index, no staging entry.\<close>

definition flushedState :: state where
  "flushedState =
     blankState\<lparr>cache_calendarId := Some ''cal'',
       cache_ModifiedEvents := Some (Parsed [(''selectedTags_e1'', ''Clean'')]),
       Calendar_Events := [(''cal'', ''e1'') \<mapsto> plainEvent]\<rparr>"

text \<open>
  A configured sheet: tag column A, domain column B, three rows. The second tag is one
  of the defaults, the third repeats the first.
\<close>

definition exampleSheet :: sheet where
  "exampleSheet =
     \<lparr>lastRow = 3,
      hasColumn = (\<lambda>c. c = ''A'' \<or> c = ''B''),
      cellAt = (\<lambda>c i. if c = ''A'' then Text ([''Sales'', ''#Work'', ''Sales''] ! i)
                       else if c = ''B'' then Text ([''example.com'', ''corp.example'', []] ! i)
                       else Text [])\<rparr>"

definition configuredState :: state where
  "configuredState =
     blankState\<lparr>prop_spreadsheetId := Some ''sheet-id'', prop_sheetName := Some ''Tags'',
       prop_column := Some ''A'', prop_emailDomainColumn := Some ''B'',
       Spreadsheets := [''sheet-id'' \<mapsto> [''Tags'' \<mapsto> exampleSheet]]\<rparr>"

text \<open>The same configuration, naming a sheet the spreadsheet does not have.\<close>

definition missingSheetState :: state where
  "missingSheetState = configuredState\<lparr>prop_sheetName := Some ''Gone''\<rparr>"

text \<open>An existing event with persisted tags and an attendee whose domain is in the table.\<close>

definition taggedEvent :: event where
  "taggedEvent =
     \<lparr>summary = Some ''Sync #Personal'',
      attendees = Some [\<lparr>email = Some ''a@example.com''\<rparr>],
      extendedProperties =
        Some \<lparr>privateSection = Some \<lparr>selectedTags = Some (Parsed [''#Work''])\<rparr>\<rparr>\<rparr>"

definition taggedEventState :: state where
  "taggedEventState =
     configuredState\<lparr>Calendar_Events := [(''cal'', ''e1'') \<mapsto> taggedEvent]\<rparr>"

text \<open>A sheet whose only tag differs from a default tag in case only.\<close>

definition caseVariantSheet :: sheet where
  "caseVariantSheet =
     \<lparr>lastRow = 1,
      hasColumn = (\<lambda>c. c = ''A'' \<or> c = ''B''),
      cellAt = (\<lambda>c i. if c = ''A'' then Text ''work'' else Text [])\<rparr>"

definition caseVariantState :: state where
  "caseVariantState =
     configuredState\<lparr>Spreadsheets := [''sheet-id'' \<mapsto> [''Tags'' \<mapsto> caseVariantSheet]]\<rparr>"

text \<open>A memoised catalog of two tags.\<close>

definition memoState :: state where
  "memoState = blankState\<lparr>prop_userTags := Some (Parsed [''#Work'', ''#Personal''])\<rparr>"

text \<open>
  A table whose first row for \<^verbatim>\<open>example.com\<close> has an empty tag cell; a later row for the
  same domain and the row for \<^verbatim>\<open>other.org\<close> have tags.
\<close>

definition emptyTagSheet :: sheet where
  "emptyTagSheet =
     \<lparr>lastRow = 3,
      hasColumn = (\<lambda>c. c = ''A'' \<or> c = ''B''),
      cellAt = (\<lambda>c i. if c = ''A'' then Text ([''Ops'', [], ''Sales''] ! i)
                       else if c = ''B''
                         then Text ([''other.org'', ''example.com'', ''example.com''] ! i)
                       else Text [])\<rparr>"

definition emptyTagState :: state where
  "emptyTagState =
     configuredState\<lparr>Spreadsheets := [''sheet-id'' \<mapsto> [''Tags'' \<mapsto> emptyTagSheet]]\<rparr>"

text \<open>The table of the spec's example: one row, \<^verbatim>\<open>example.com\<close> with the tag \<^verbatim>\<open>Sales\<close>.\<close>

definition salesSheet :: sheet where
  "salesSheet =
     \<lparr>lastRow = 1,
      hasColumn = (\<lambda>c. c = ''A'' \<or> c = ''B''),
      cellAt = (\<lambda>c i. if c = ''A'' then Text ''Sales''
                       else if c = ''B'' then Text ''example.com''
                       else Text [])\<rparr>"

definition salesState :: state where
  "salesState =
     configuredState\<lparr>Spreadsheets := [''sheet-id'' \<mapsto> [''Tags'' \<mapsto> salesSheet]]\<rparr>"


text \<open>
  A sheet whose tag column holds a number in its second row; the domain cell of the first
  row is \<^verbatim>\<open>y\<close>.
\<close>

definition numberCellSheet :: sheet where
  "numberCellSheet =
     \<lparr>lastRow = 2,
      hasColumn = (\<lambda>c. c = ''A'' \<or> c = ''B''),
      cellAt = (\<lambda>c i. if c = ''A'' then [Text ''Ops'', NonText True] ! i
                       else if c = ''B'' then [Text ''y'', Text ''example.org''] ! i
                       else Text [])\<rparr>"

definition numberCellState :: state where
  "numberCellState =
     configuredState\<lparr>Spreadsheets := [''sheet-id'' \<mapsto> [''Tags'' \<mapsto> numberCellSheet]]\<rparr>"

section \<open>Properties\<close>

subsection \<open>Unfolding the concrete states\<close>

lemma upt_0_3: "[0..<3] = [0, 1, 2]"
  by (simp add: upt_rec)

lemma upt_0_2: "[0..<2] = [0, 1]"
  by (simp add: upt_rec)

lemmas base_defs = blankState_def plainEvent_def

lemmas sheet_defs = upt_0_3 configuredState_def exampleSheet_def blankState_def

subsection \<open>The synchronisation engine\<close>

lemmas sync_defs =
  saveTagsFromCache_def flushKey_def tryFlush_def eventIdOf_def startsWith_def
  Events_get_def Events_update_def setSelectedTags_def dirtyStatus_def remotePayload_def

lemma map_of_assign: "map_of (assign k v ps) = (map_of ps)(k \<mapsto> v)"
  by (induction ps) (auto simp: fun_eq_iff)

lemma map_fst_assign: "map_of ps k = Some u \<Longrightarrow> map fst (assign k v ps) = map fst ps"
  by (induction ps) (auto split: if_splits)

lemma stagingKey_eq:
  assumes "startsWith k ''selectedTags_''" "startsWith k' ''selectedTags_''"
    and "eventIdOf k = Some e" "eventIdOf k' = Some e"
  shows "k = k'"
proof -
  define n where "n = length ''selectedTags_''"
  from assms(3,4) have d: "drop n k = drop n k'"
    unfolding n_def eventIdOf_def by (simp split: if_splits)
  from assms(1,2) have t: "take n k = take n k'"
    unfolding n_def startsWith_def by simp
  have "take n k @ drop n k = take n k' @ drop n k'"
    using d t by simp
  then show ?thesis by simp
qed

lemma setSelectedTags_Inr:
  "writableExt ev \<Longrightarrow> \<exists>ev'. setSelectedTags ev tags = Inr ev'"
  by (cases "extendedProperties ev")
     (auto simp: setSelectedTags_def writableExt_def Let_def)

lemma setSelectedTags_Inl:
  "\<not> writableExt ev \<Longrightarrow> setSelectedTags ev tags = Inl TypeError"
  by (cases "extendedProperties ev")
     (auto simp: setSelectedTags_def writableExt_def Let_def)

lemma tryFlush_skip:
  "eo = None \<or> eo = Some [] \<Longrightarrow> tryFlush cal k eo tags (stack, s) = Inr (stack, s)"
  by (auto simp: tryFlush_def)

lemma tryFlush_fail:
  assumes "eid \<noteq> []"
    and "\<not> (\<exists>ev. Calendar_Events s (cal, eid) = Some ev \<and> writableExt ev
               \<and> (cal, eid) \<notin> Calendar_readOnly s)"
  shows "\<exists>x. tryFlush cal k (Some eid) tags (stack, s) = Inl x"
proof (cases "Calendar_Events s (cal, eid)")
  case None
  then show ?thesis using assms(1) by (simp add: tryFlush_def Events_get_def)
next
  case (Some ev)
  show ?thesis
  proof (cases "writableExt ev")
    case False
    then show ?thesis
      using assms(1) Some by (simp add: tryFlush_def Events_get_def setSelectedTags_Inl)
  next
    case True
    then obtain ev' where "setSelectedTags ev tags = Inr ev'"
      using setSelectedTags_Inr by blast
    moreover have "(cal, eid) \<in> Calendar_readOnly s"
      using assms(2) Some True by simp
    ultimately show ?thesis
      using assms(1) Some by (simp add: tryFlush_def Events_get_def Events_update_def)
  qed
qed

lemma tryFlush_ok:
  assumes "eid \<noteq> []" and "Calendar_Events s (cal, eid) = Some ev"
    and "setSelectedTags ev tags = Inr ev'" and "(cal, eid) \<notin> Calendar_readOnly s"
  shows "tryFlush cal k (Some eid) tags (stack, s) =
           Inr (assign k ''Clean'' stack,
                s\<lparr>Calendar_Events := (Calendar_Events s)((cal, eid) \<mapsto> ev'),
                  cache_staged := (cache_staged s)(k := None)\<rparr>)"
  using assms by (simp add: tryFlush_def Events_get_def Events_update_def)

lemma flushKey_noop:
  assumes "map_of stack k = Some ''Dirty'' \<longrightarrow> cache_staged s k \<noteq> Some Malformed"
    and "\<not> (map_of stack k = Some ''Dirty'' \<and> flushable s cal k)"
  shows "flushKey cal k (stack, s) = Inr (stack, s)"
proof (cases "map_of stack k = Some ''Dirty''")
  case False
  then show ?thesis by (simp add: flushKey_def)
next
  case dirty: True
  with assms have nm: "cache_staged s k \<noteq> Some Malformed" and nf: "\<not> flushable s cal k"
    by simp_all
  show ?thesis
  proof (cases "cache_staged s k")
    case None
    then show ?thesis using dirty by (simp add: flushKey_def)
  next
    case (Some staged)
    with nm obtain tags where tags: "cache_staged s k = Some (Parsed tags)"
      by (cases staged) auto
    have "(\<exists>x. tryFlush cal k (eventIdOf k) tags (stack, s) = Inl x)
          \<or> tryFlush cal k (eventIdOf k) tags (stack, s) = Inr (stack, s)"
    proof (cases "eventIdOf k")
      case None
      then show ?thesis by (simp add: tryFlush_skip)
    next
      case (Some eid)
      show ?thesis
      proof (cases "eid = []")
        case True
        then show ?thesis using Some by (simp add: tryFlush_skip)
      next
        case False
        have "\<not> (\<exists>ev. Calendar_Events s (cal, eid) = Some ev \<and> writableExt ev
               \<and> (cal, eid) \<notin> Calendar_readOnly s)"
          using nf tags Some False by (auto simp: flushable_def)
        then show ?thesis using Some False tryFlush_fail by simp
      qed
    qed
    then show ?thesis using dirty tags by (auto simp: flushKey_def)
  qed
qed

lemma flushKey_flush:
  assumes "map_of stack k = Some ''Dirty''" and "flushable s cal k"
  shows "\<exists>tags eid ev ev'. cache_staged s k = Some (Parsed tags) \<and> eventIdOf k = Some eid
           \<and> Calendar_Events s (cal, eid) = Some ev \<and> setSelectedTags ev tags = Inr ev'
           \<and> flushKey cal k (stack, s) =
               Inr (assign k ''Clean'' stack,
                    s\<lparr>Calendar_Events := (Calendar_Events s)((cal, eid) \<mapsto> ev'),
                      cache_staged := (cache_staged s)(k := None)\<rparr>)"
proof -
  from assms(2) obtain tags where tags: "cache_staged s k = Some (Parsed tags)"
    by (auto simp: flushable_def split: option.splits json_text.splits)
  from assms(2) tags obtain eid where eid: "eventIdOf k = Some eid" "eid \<noteq> []"
    by (auto simp: flushable_def split: option.splits)
  from assms(2) tags eid obtain ev where ev: "Calendar_Events s (cal, eid) = Some ev"
    "writableExt ev" "(cal, eid) \<notin> Calendar_readOnly s"
    by (auto simp: flushable_def split: option.splits)
  from ev(2) obtain ev' where ev': "setSelectedTags ev tags = Inr ev'"
    using setSelectedTags_Inr by blast
  have "flushKey cal k (stack, s) =
               Inr (assign k ''Clean'' stack,
                    s\<lparr>Calendar_Events := (Calendar_Events s)((cal, eid) \<mapsto> ev'),
                      cache_staged := (cache_staged s)(k := None)\<rparr>)"
    using assms(1) tags eid tryFlush_ok[OF eid(2) ev(1) ev' ev(3)]
    by (simp add: flushKey_def)
  with tags eid ev ev' show ?thesis by blast
qed

lemma setSelectedTags_payload:
  "setSelectedTags ev tags = Inr ev' \<Longrightarrow>
     (case extendedProperties ev' of None \<Rightarrow> None
      | Some ext \<Rightarrow> (case privateSection ext of None \<Rightarrow> None | Some p \<Rightarrow> selectedTags p))
     = Some (Parsed tags)"
  by (auto simp: setSelectedTags_def Let_def split: option.splits)


lemma remotePayload_upd:
  "setSelectedTags ev tags = Inr ev' \<Longrightarrow>
   remotePayload (s\<lparr>Calendar_Events := (Calendar_Events s)((cal, eid) \<mapsto> ev'),
                    cache_staged := cs\<rparr>) cal eid = Some (Parsed tags)"
  using setSelectedTags_payload[of ev tags ev'] by (simp add: remotePayload_def)

lemma flushable_cong:
  assumes "cache_staged s1 k = cache_staged s k"
    and "Calendar_readOnly s1 = Calendar_readOnly s"
    and "\<forall>e. eventIdOf k = Some e \<longrightarrow> Calendar_Events s1 (cal, e) = Calendar_Events s (cal, e)"
  shows "flushable s1 cal k = flushable s cal k"
proof (cases "eventIdOf k")
  case None
  then show ?thesis using assms(1)
    by (simp add: flushable_def split: option.split json_text.split)
next
  case (Some e)
  then have "Calendar_Events s1 (cal, e) = Calendar_Events s (cal, e)"
    using assms(3) by simp
  then show ?thesis using Some assms(1,2)
    by (simp add: flushable_def split: option.split json_text.split)
qed

lemma remotePayload_cong:
  "Calendar_Events s1 (cal, e) = Calendar_Events s (cal, e) \<Longrightarrow>
   remotePayload s1 cal e = remotePayload s cal e"
  by (simp add: remotePayload_def)

lemma flushKey_facts:
  assumes "map_of stack k = Some ''Dirty'' \<longrightarrow> cache_staged s k \<noteq> Some Malformed"
  shows "\<exists>stack1 s1. flushKey cal k (stack, s) = Inr (stack1, s1)
     \<and> map fst stack1 = map fst stack
     \<and> Calendar_readOnly s1 = Calendar_readOnly s
     \<and> (\<forall>k'. k' \<noteq> k \<longrightarrow> map_of stack1 k' = map_of stack k'
                          \<and> cache_staged s1 k' = cache_staged s k')
     \<and> (\<forall>e. eventIdOf k \<noteq> Some e \<longrightarrow> Calendar_Events s1 (cal, e) = Calendar_Events s (cal, e))
     \<and> (map_of stack k = Some ''Dirty'' \<and> flushable s cal k \<longrightarrow>
          map_of stack1 k = Some ''Clean'' \<and> cache_staged s1 k = None
          \<and> (\<exists>eid. eventIdOf k = Some eid \<and> remotePayload s1 cal eid = cache_staged s k))
     \<and> (\<not> (map_of stack k = Some ''Dirty'' \<and> flushable s cal k) \<longrightarrow>
          map_of stack1 k = map_of stack k \<and> cache_staged s1 k = cache_staged s k)
     \<and> s1 = s\<lparr>Calendar_Events := Calendar_Events s1, cache_staged := cache_staged s1\<rparr>"
proof (cases "map_of stack k = Some ''Dirty'' \<and> flushable s cal k")
  case False
  then have "flushKey cal k (stack, s) = Inr (stack, s)"
    using assms flushKey_noop by blast
  then show ?thesis using False by simp
next
  case True
  then obtain tags eid ev ev' where
    f: "cache_staged s k = Some (Parsed tags)" "eventIdOf k = Some eid"
       "Calendar_Events s (cal, eid) = Some ev" "setSelectedTags ev tags = Inr ev'"
       "flushKey cal k (stack, s) =
               Inr (assign k ''Clean'' stack,
                    s\<lparr>Calendar_Events := (Calendar_Events s)((cal, eid) \<mapsto> ev'),
                      cache_staged := (cache_staged s)(k := None)\<rparr>)"
    using flushKey_flush by blast
  have "map fst (assign k ''Clean'' stack) = map fst stack"
    using True map_fst_assign by blast
  moreover have "remotePayload (s\<lparr>Calendar_Events := (Calendar_Events s)((cal, eid) \<mapsto> ev'),
                      cache_staged := (cache_staged s)(k := None)\<rparr>) cal eid = cache_staged s k"
    using f(1,4) remotePayload_upd by simp
  ultimately show ?thesis
    using True f(2,5) by (simp add: map_of_assign)
qed

lemma flushLoop_post:
  assumes "distinct ks"
    and "\<forall>k\<in>set ks. startsWith k ''selectedTags_''"
    and "\<forall>k\<in>set ks. map_of stack k = Some ''Dirty'' \<longrightarrow> cache_staged s k \<noteq> Some Malformed"
  shows "\<exists>stack' s'. flushLoop cal ks (stack, s) = (None, stack', s')
     \<and> map fst stack' = map fst stack
     \<and> Calendar_readOnly s' = Calendar_readOnly s
     \<and> (\<forall>k. k \<notin> set ks \<longrightarrow> map_of stack' k = map_of stack k
                          \<and> cache_staged s' k = cache_staged s k)
     \<and> (\<forall>e. (\<forall>k\<in>set ks. eventIdOf k \<noteq> Some e) \<longrightarrow>
              Calendar_Events s' (cal, e) = Calendar_Events s (cal, e))
     \<and> (\<forall>k\<in>set ks. map_of stack k = Some ''Dirty'' \<and> flushable s cal k \<longrightarrow>
          map_of stack' k = Some ''Clean'' \<and> cache_staged s' k = None
          \<and> (\<exists>eid. eventIdOf k = Some eid \<and> remotePayload s' cal eid = cache_staged s k))
     \<and> (\<forall>k\<in>set ks. \<not> (map_of stack k = Some ''Dirty'' \<and> flushable s cal k) \<longrightarrow>
          map_of stack' k = map_of stack k \<and> cache_staged s' k = cache_staged s k)
     \<and> s' = s\<lparr>Calendar_Events := Calendar_Events s', cache_staged := cache_staged s'\<rparr>"
  using assms
proof (induction ks arbitrary: stack s)
  case Nil
  then show ?case by simp
next
  case (Cons k ks)
  from Cons.prems(3) have "map_of stack k = Some ''Dirty'' \<longrightarrow> cache_staged s k \<noteq> Some Malformed"
    by simp
  from flushKey_facts[OF this, of cal] obtain stack1 s1 where
    k1: "flushKey cal k (stack, s) = Inr (stack1, s1)"
    and k2: "map fst stack1 = map fst stack"
    and k3: "Calendar_readOnly s1 = Calendar_readOnly s"
    and k4: "\<forall>k'. k' \<noteq> k \<longrightarrow> map_of stack1 k' = map_of stack k'
                          \<and> cache_staged s1 k' = cache_staged s k'"
    and k5: "\<forall>e. eventIdOf k \<noteq> Some e \<longrightarrow> Calendar_Events s1 (cal, e) = Calendar_Events s (cal, e)"
    and k6: "map_of stack k = Some ''Dirty'' \<and> flushable s cal k \<longrightarrow>
          map_of stack1 k = Some ''Clean'' \<and> cache_staged s1 k = None
          \<and> (\<exists>eid. eventIdOf k = Some eid \<and> remotePayload s1 cal eid = cache_staged s k)"
    and k7: "\<not> (map_of stack k = Some ''Dirty'' \<and> flushable s cal k) \<longrightarrow>
          map_of stack1 k = map_of stack k \<and> cache_staged s1 k = cache_staged s k"
    and k8: "s1 = s\<lparr>Calendar_Events := Calendar_Events s1, cache_staged := cache_staged s1\<rparr>"
    by blast
  have notin: "k \<notin> set ks" and dist: "distinct ks"
    using Cons.prems(1) by simp_all
  have stag: "\<forall>k'\<in>set ks. startsWith k' ''selectedTags_''" and stagk: "startsWith k ''selectedTags_''"
    using Cons.prems(2) by simp_all
  have other: "\<forall>k'\<in>set ks. k' \<noteq> k"
    using notin by blast
  have eid_ne: "\<forall>k'\<in>set ks. \<forall>e. eventIdOf k' = Some e \<longrightarrow> eventIdOf k \<noteq> Some e"
    using stagingKey_eq stag stagk notin by metis
  have pre3: "\<forall>k'\<in>set ks. map_of stack1 k' = Some ''Dirty'' \<longrightarrow> cache_staged s1 k' \<noteq> Some Malformed"
    using Cons.prems(3) k4 other by simp
  from Cons.IH[OF dist stag pre3] obtain stack' s' where
    l1: "flushLoop cal ks (stack1, s1) = (None, stack', s')"
    and l2: "map fst stack' = map fst stack1"
    and l3: "Calendar_readOnly s' = Calendar_readOnly s1"
    and l4: "\<forall>k. k \<notin> set ks \<longrightarrow> map_of stack' k = map_of stack1 k
                          \<and> cache_staged s' k = cache_staged s1 k"
    and l5: "\<forall>e. (\<forall>k\<in>set ks. eventIdOf k \<noteq> Some e) \<longrightarrow>
              Calendar_Events s' (cal, e) = Calendar_Events s1 (cal, e)"
    and l6: "\<forall>k\<in>set ks. map_of stack1 k = Some ''Dirty'' \<and> flushable s1 cal k \<longrightarrow>
          map_of stack' k = Some ''Clean'' \<and> cache_staged s' k = None
          \<and> (\<exists>eid. eventIdOf k = Some eid \<and> remotePayload s' cal eid = cache_staged s1 k)"
    and l7: "\<forall>k\<in>set ks. \<not> (map_of stack1 k = Some ''Dirty'' \<and> flushable s1 cal k) \<longrightarrow>
          map_of stack' k = map_of stack1 k \<and> cache_staged s' k = cache_staged s1 k"
    and l8: "s' = s1\<lparr>Calendar_Events := Calendar_Events s', cache_staged := cache_staged s'\<rparr>"
    by blast
  have same_flushable: "\<forall>k'\<in>set ks. flushable s1 cal k' = flushable s cal k'"
  proof
    fix k' assume k': "k' \<in> set ks"
    have "\<forall>e. eventIdOf k' = Some e \<longrightarrow> Calendar_Events s1 (cal, e) = Calendar_Events s (cal, e)"
      using eid_ne k' k5 by blast
    moreover have "cache_staged s1 k' = cache_staged s k'"
      using k4 other k' by blast
    ultimately show "flushable s1 cal k' = flushable s cal k'"
      using k3 flushable_cong by blast
  qed
  have c1: "flushLoop cal (k # ks) (stack, s) = (None, stack', s')"
    using k1 l1 by simp
  have c2: "map fst stack' = map fst stack" using k2 l2 by simp
  have c3: "Calendar_readOnly s' = Calendar_readOnly s" using k3 l3 by simp
  have c4: "\<forall>k'. k' \<notin> set (k # ks) \<longrightarrow> map_of stack' k' = map_of stack k'
                          \<and> cache_staged s' k' = cache_staged s k'"
    using k4 l4 by simp
  have c5: "\<forall>e. (\<forall>k'\<in>set (k # ks). eventIdOf k' \<noteq> Some e) \<longrightarrow>
              Calendar_Events s' (cal, e) = Calendar_Events s (cal, e)"
    using k5 l5 by simp
  have head_frame: "map_of stack' k = map_of stack1 k \<and> cache_staged s' k = cache_staged s1 k"
    using l4 notin by blast
  have head_ev: "\<forall>e. eventIdOf k = Some e \<longrightarrow> Calendar_Events s' (cal, e) = Calendar_Events s1 (cal, e)"
    using l5 eid_ne by metis
  have c6: "\<forall>k'\<in>set (k # ks). map_of stack k' = Some ''Dirty'' \<and> flushable s cal k' \<longrightarrow>
          map_of stack' k' = Some ''Clean'' \<and> cache_staged s' k' = None
          \<and> (\<exists>eid. eventIdOf k' = Some eid \<and> remotePayload s' cal eid = cache_staged s k')"
  proof
    fix k' assume k': "k' \<in> set (k # ks)"
    show "map_of stack k' = Some ''Dirty'' \<and> flushable s cal k' \<longrightarrow>
          map_of stack' k' = Some ''Clean'' \<and> cache_staged s' k' = None
          \<and> (\<exists>eid. eventIdOf k' = Some eid \<and> remotePayload s' cal eid = cache_staged s k')"
    proof (cases "k' = k")
      case True
      show ?thesis
      proof
        assume a: "map_of stack k' = Some ''Dirty'' \<and> flushable s cal k'"
        with True k6 obtain eid where e: "map_of stack1 k = Some ''Clean''" "cache_staged s1 k = None"
          "eventIdOf k = Some eid" "remotePayload s1 cal eid = cache_staged s k"
          by blast
        have "remotePayload s' cal eid = remotePayload s1 cal eid"
          using head_ev e(3) remotePayload_cong by blast
        then show "map_of stack' k' = Some ''Clean'' \<and> cache_staged s' k' = None
          \<and> (\<exists>eid. eventIdOf k' = Some eid \<and> remotePayload s' cal eid = cache_staged s k')"
          using True e head_frame by simp
      qed
    next
      case False
      then have in_ks: "k' \<in> set ks" using k' by simp
      have "map_of stack1 k' = map_of stack k'" "cache_staged s1 k' = cache_staged s k'"
        using k4 False by simp_all
      moreover have "flushable s1 cal k' = flushable s cal k'"
        using same_flushable in_ks by blast
      ultimately show ?thesis using l6 in_ks by metis
    qed
  qed
  have c7: "\<forall>k'\<in>set (k # ks). \<not> (map_of stack k' = Some ''Dirty'' \<and> flushable s cal k') \<longrightarrow>
          map_of stack' k' = map_of stack k' \<and> cache_staged s' k' = cache_staged s k'"
  proof
    fix k' assume k': "k' \<in> set (k # ks)"
    show "\<not> (map_of stack k' = Some ''Dirty'' \<and> flushable s cal k') \<longrightarrow>
          map_of stack' k' = map_of stack k' \<and> cache_staged s' k' = cache_staged s k'"
    proof (cases "k' = k")
      case True
      then show ?thesis using k7 head_frame by simp
    next
      case False
      then have in_ks: "k' \<in> set ks" using k' by simp
      have "map_of stack1 k' = map_of stack k'" "cache_staged s1 k' = cache_staged s k'"
        using k4 False by simp_all
      moreover have "flushable s1 cal k' = flushable s cal k'"
        using same_flushable in_ks by blast
      ultimately show ?thesis using l7 in_ks by metis
    qed
  qed
  have c8: "s' = s\<lparr>Calendar_Events := Calendar_Events s', cache_staged := cache_staged s'\<rparr>"
    using k8 l8 by (metis (no_types) state.update_convs(3,9) state.surjective)
  show ?case using c1 c2 c3 c4 c5 c6 c7 c8 by blast
qed

lemma remoteFails_not_flushable: "remoteFails s cal k \<Longrightarrow> \<not> flushable s cal k"
  by (auto simp: remoteFails_def flushable_def split: option.splits json_text.splits)

lemma map_of_keys: "map_of ps k = Some v \<Longrightarrow> k \<in> set (map fst ps)"
  by (induction ps) (auto split: if_splits)

text \<open>
  Claim C2. In a pass over an index with several dirty keys of existing events, a key for
  which the fetch or the update raises stays Dirty and keeps its staging entry, and the
  pass goes on: it ends without an exception, and every dirty key whose flush goes through,
  wherever it stands in the index, is marked Clean, loses its staging entry, and has its
  staged tag list as the remote payload. (The index holds staging keys, each once, a calendar
  id is cached, and no staged text of a dirty key is malformed.)
\<close>

theorem partial_failure_isolation:
  assumes "cache_ModifiedEvents s = Some (Parsed stack)"
    and "cache_calendarId s = Some cal" and "cal \<noteq> []"
    and "distinct (map fst stack)"
    and "\<forall>k\<in>set (map fst stack). startsWith k ''selectedTags_''"
    and "\<forall>k. map_of stack k = Some ''Dirty'' \<longrightarrow> cache_staged s k \<noteq> Some Malformed"
  shows "fst (saveTagsFromCache s) = None \<and>
     (\<forall>k. dirtyStatus s k = Some ''Dirty'' \<longrightarrow>
        (remoteFails s cal k \<longrightarrow>
           dirtyStatus (snd (saveTagsFromCache s)) k = Some ''Dirty''
           \<and> cache_staged (snd (saveTagsFromCache s)) k = cache_staged s k)
        \<and> (flushable s cal k \<longrightarrow>
           dirtyStatus (snd (saveTagsFromCache s)) k = Some ''Clean''
           \<and> cache_staged (snd (saveTagsFromCache s)) k = None
           \<and> (\<exists>eid. eventIdOf k = Some eid
                \<and> remotePayload (snd (saveTagsFromCache s)) cal eid = cache_staged s k)))"
proof -
  have nm: "\<forall>k\<in>set (map fst stack). map_of stack k = Some ''Dirty'' \<longrightarrow> cache_staged s k \<noteq> Some Malformed"
    using assms(6) by blast
  from flushLoop_post[OF assms(4,5) nm, of cal] obtain stack' s' where
    l1: "flushLoop cal (map fst stack) (stack, s) = (None, stack', s')"
    and l6: "\<forall>k\<in>set (map fst stack). map_of stack k = Some ''Dirty'' \<and> flushable s cal k \<longrightarrow>
          map_of stack' k = Some ''Clean'' \<and> cache_staged s' k = None
          \<and> (\<exists>eid. eventIdOf k = Some eid \<and> remotePayload s' cal eid = cache_staged s k)"
    and l7: "\<forall>k\<in>set (map fst stack). \<not> (map_of stack k = Some ''Dirty'' \<and> flushable s cal k) \<longrightarrow>
          map_of stack' k = map_of stack k \<and> cache_staged s' k = cache_staged s k"
    by blast
  define t where "t = s'\<lparr>cache_ModifiedEvents := Some (Parsed stack')\<rparr>"
  have res: "saveTagsFromCache s = (None, t)"
    using assms(1,2,3) l1 by (simp add: saveTagsFromCache_def t_def)
  have t1: "dirtyStatus t = map_of stack'" "cache_staged t = cache_staged s'"
    "\<And>e. remotePayload t cal e = remotePayload s' cal e"
    by (simp_all add: t_def dirtyStatus_def fun_eq_iff remotePayload_def)
  have s1: "dirtyStatus s = map_of stack"
    using assms(1) by (simp add: dirtyStatus_def fun_eq_iff)
  have "\<forall>k. dirtyStatus s k = Some ''Dirty'' \<longrightarrow>
        (remoteFails s cal k \<longrightarrow>
           dirtyStatus t k = Some ''Dirty'' \<and> cache_staged t k = cache_staged s k)
        \<and> (flushable s cal k \<longrightarrow>
           dirtyStatus t k = Some ''Clean'' \<and> cache_staged t k = None
           \<and> (\<exists>eid. eventIdOf k = Some eid \<and> remotePayload t cal eid = cache_staged s k))"
  proof (intro allI impI conjI)
    fix k assume d: "dirtyStatus s k = Some ''Dirty''" and f: "remoteFails s cal k"
    then have "k \<in> set (map fst stack)" "\<not> flushable s cal k"
      using s1 map_of_keys remoteFails_not_flushable by auto
    then have "map_of stack' k = map_of stack k \<and> cache_staged s' k = cache_staged s k"
      using l7 by blast
    then show "dirtyStatus t k = Some ''Dirty''" "cache_staged t k = cache_staged s k"
      using d s1 t1 by simp_all
  next
    fix k assume d: "dirtyStatus s k = Some ''Dirty''" and f: "flushable s cal k"
    then have "k \<in> set (map fst stack)" "map_of stack k = Some ''Dirty''"
      using s1 map_of_keys by auto
    then have "map_of stack' k = Some ''Clean'' \<and> cache_staged s' k = None
          \<and> (\<exists>eid. eventIdOf k = Some eid \<and> remotePayload s' cal eid = cache_staged s k)"
      using l6 f by blast
    then show "dirtyStatus t k = Some ''Clean''" "cache_staged t k = None"
      "\<exists>eid. eventIdOf k = Some eid \<and> remotePayload t cal eid = cache_staged s k"
      using t1 by simp_all
  qed
  then show ?thesis using res by simp
qed

theorem partial_failure_isolation_witness:
  "fst (saveTagsFromCache fourKeyState) = None
   \<and> dirtyStatus (snd (saveTagsFromCache fourKeyState)) ''selectedTags_e1'' = Some ''Clean''
   \<and> cache_staged (snd (saveTagsFromCache fourKeyState)) ''selectedTags_e1'' = None
   \<and> dirtyStatus (snd (saveTagsFromCache fourKeyState)) ''selectedTags_e2'' = Some ''Dirty''
   \<and> cache_staged (snd (saveTagsFromCache fourKeyState)) ''selectedTags_e2''
        = Some (Parsed [''#Personal''])
   \<and> dirtyStatus (snd (saveTagsFromCache fourKeyState)) ''selectedTags_e3'' = Some ''Dirty''
   \<and> cache_staged (snd (saveTagsFromCache fourKeyState)) ''selectedTags_e3''
        = Some (Parsed [''#Internal_Meeting''])
   \<and> dirtyStatus (snd (saveTagsFromCache fourKeyState)) ''selectedTags_e4'' = Some ''Clean''
   \<and> cache_staged (snd (saveTagsFromCache fourKeyState)) ''selectedTags_e4'' = None
   \<and> remotePayload (snd (saveTagsFromCache fourKeyState)) ''cal'' ''e4''
        = Some (Parsed [''#Work'', ''#Personal''])"
proof -
  have h1: "cache_ModifiedEvents fourKeyState = Some (Parsed fourKeyStack)"
    by (simp add: fourKeyState_def)
  have h2: "cache_calendarId fourKeyState = Some ''cal''"
    by (simp add: fourKeyState_def)
  have h3: "''cal'' \<noteq> []" by simp
  have h4: "distinct (map fst fourKeyStack)"
    by (simp add: fourKeyStack_def)
  have h5: "\<forall>k\<in>set (map fst fourKeyStack). startsWith k ''selectedTags_''"
    by (simp add: fourKeyStack_def startsWith_def)
  have h6: "\<forall>k. map_of fourKeyStack k = Some ''Dirty''
              \<longrightarrow> cache_staged fourKeyState k \<noteq> Some Malformed"
    by (simp add: fourKeyStack_def fourKeyState_def)
  have d: "dirtyStatus fourKeyState ''selectedTags_e1'' = Some ''Dirty''"
    "dirtyStatus fourKeyState ''selectedTags_e2'' = Some ''Dirty''"
    "dirtyStatus fourKeyState ''selectedTags_e3'' = Some ''Dirty''"
    "dirtyStatus fourKeyState ''selectedTags_e4'' = Some ''Dirty''"
    by (simp_all add: dirtyStatus_def fourKeyState_def fourKeyStack_def)
  have f: "flushable fourKeyState ''cal'' ''selectedTags_e1''"
    "remoteFails fourKeyState ''cal'' ''selectedTags_e2''"
    "remoteFails fourKeyState ''cal'' ''selectedTags_e3''"
    "flushable fourKeyState ''cal'' ''selectedTags_e4''"
    by (simp_all add: flushable_def remoteFails_def writableExt_def eventIdOf_def startsWith_def
          fourKeyState_def blankState_def plainEvent_def)
  have s: "cache_staged fourKeyState ''selectedTags_e2'' = Some (Parsed [''#Personal''])"
    "cache_staged fourKeyState ''selectedTags_e3'' = Some (Parsed [''#Internal_Meeting''])"
    "cache_staged fourKeyState ''selectedTags_e4'' = Some (Parsed [''#Work'', ''#Personal''])"
    "eventIdOf ''selectedTags_e4'' = Some ''e4''"
    by (simp_all add: fourKeyState_def eventIdOf_def startsWith_def)
  note t = partial_failure_isolation[OF h1 h2 h3 h4 h5 h6]
  from t have r: "fst (saveTagsFromCache fourKeyState) = None"
    by blast
  from t d(1) f(1) have k1:
    "dirtyStatus (snd (saveTagsFromCache fourKeyState)) ''selectedTags_e1'' = Some ''Clean''"
    "cache_staged (snd (saveTagsFromCache fourKeyState)) ''selectedTags_e1'' = None"
    by blast+
  from t d(2) f(2) have k2:
    "dirtyStatus (snd (saveTagsFromCache fourKeyState)) ''selectedTags_e2'' = Some ''Dirty''"
    "cache_staged (snd (saveTagsFromCache fourKeyState)) ''selectedTags_e2''
       = cache_staged fourKeyState ''selectedTags_e2''"
    by blast+
  from t d(3) f(3) have k3:
    "dirtyStatus (snd (saveTagsFromCache fourKeyState)) ''selectedTags_e3'' = Some ''Dirty''"
    "cache_staged (snd (saveTagsFromCache fourKeyState)) ''selectedTags_e3''
       = cache_staged fourKeyState ''selectedTags_e3''"
    by blast+
  from t d(4) f(4) have k4:
    "dirtyStatus (snd (saveTagsFromCache fourKeyState)) ''selectedTags_e4'' = Some ''Clean''"
    "cache_staged (snd (saveTagsFromCache fourKeyState)) ''selectedTags_e4'' = None"
    "\<exists>eid. eventIdOf ''selectedTags_e4'' = Some eid
       \<and> remotePayload (snd (saveTagsFromCache fourKeyState)) ''cal'' eid
           = cache_staged fourKeyState ''selectedTags_e4''"
    by blast+
  from k4(3) s(3,4) have p4:
    "remotePayload (snd (saveTagsFromCache fourKeyState)) ''cal'' ''e4''
       = Some (Parsed [''#Work'', ''#Personal''])"
    by auto
  show ?thesis using r k1 k2 k3 k4(1,2) p4 s(1,2) by simp
qed

lemma flushKey_Inr_shape:
  assumes "flushKey cal k0 (stack, s) = Inr (stack1, s1)"
  shows "(stack1 = stack \<and> s1 = s)
       \<or> (\<exists>eid ev'. eventIdOf k0 = Some eid \<and> stack1 = assign k0 ''Clean'' stack
             \<and> s1 = s\<lparr>Calendar_Events := (Calendar_Events s)((cal, eid) \<mapsto> ev'),
                       cache_staged := (cache_staged s)(k0 := None)\<rparr>)"
proof -
  have nm: "map_of stack k0 = Some ''Dirty'' \<longrightarrow> cache_staged s k0 \<noteq> Some Malformed"
    using assms by (auto simp: flushKey_def)
  show ?thesis
  proof (cases "map_of stack k0 = Some ''Dirty'' \<and> flushable s cal k0")
    case False
    then show ?thesis using flushKey_noop[OF nm] assms by simp
  next
    case True
    then show ?thesis using flushKey_flush[of stack k0 s cal] assms by auto
  qed
qed

lemma flushKey_new_key:
  assumes "startsWith k ''selectedTags_new_''"
  shows "flushKey cal k (stack, s) = Inr (stack, s) \<or> flushKey cal k (stack, s) = Inl SyntaxError"
proof -
  have "eventIdOf k = None" using assms by (simp add: eventIdOf_def)
  then show ?thesis
    by (auto simp: flushKey_def tryFlush_skip split: option.splits json_text.splits)
qed

lemma flushKey_keeps_new_key:
  assumes "startsWith k ''selectedTags_new_''"
    and "flushKey cal k0 (stack, s) = Inr (stack1, s1)"
  shows "map_of stack1 k = map_of stack k \<and> cache_staged s1 k = cache_staged s k
       \<and> cache_ModifiedEvents s1 = cache_ModifiedEvents s
       \<and> cache_calendarId s1 = cache_calendarId s"
proof (cases "k0 = k")
  case True
  then show ?thesis using flushKey_new_key[OF assms(1), of cal stack s] assms(2) by auto
next
  case False
  then show ?thesis using flushKey_Inr_shape[OF assms(2)] by (auto simp: map_of_assign)
qed

lemma flushLoop_keeps_new_key:
  assumes "startsWith k ''selectedTags_new_''"
    and "flushLoop cal ks (stack, s) = (r, stack', s')"
  shows "map_of stack' k = map_of stack k \<and> cache_staged s' k = cache_staged s k
       \<and> cache_ModifiedEvents s' = cache_ModifiedEvents s
       \<and> cache_calendarId s' = cache_calendarId s"
  using assms(2)
proof (induction ks arbitrary: stack s)
  case Nil
  then show ?case by simp
next
  case (Cons k0 ks)
  show ?case
  proof (cases "flushKey cal k0 (stack, s)")
    case (Inl x)
    then show ?thesis using Cons.prems by simp
  next
    case (Inr st1)
    obtain stack1 s1 where st1: "st1 = (stack1, s1)" by (cases st1)
    have "flushLoop cal ks (stack1, s1) = (r, stack', s')"
      using Cons.prems Inr st1 by simp
    from Cons.IH[OF this] flushKey_keeps_new_key[OF assms(1) Inr[unfolded st1]]
    show ?thesis by simp
  qed
qed

lemma saveTagsFromCache_keeps_new_key:
  assumes "startsWith k ''selectedTags_new_''" and "dirtyStatus s k = Some ''Dirty''"
  shows "dirtyStatus (snd (saveTagsFromCache s)) k = Some ''Dirty''
       \<and> cache_staged (snd (saveTagsFromCache s)) k = cache_staged s k"
proof -
  from assms(2) obtain stack where st: "cache_ModifiedEvents s = Some (Parsed stack)"
    and d: "map_of stack k = Some ''Dirty''"
    by (auto simp: dirtyStatus_def split: option.splits json_text.splits)
  show ?thesis
  proof (cases "\<exists>cal. cache_calendarId s = Some cal \<and> cal \<noteq> []")
    case False
    then have "saveTagsFromCache s = (None, s)"
      using st by (auto simp: saveTagsFromCache_def split: option.splits)
    then show ?thesis using assms(2) by simp
  next
    case True
    then obtain cal where cal: "cache_calendarId s = Some cal" "cal \<noteq> []" by blast
    obtain r stack' s' where l: "flushLoop cal (map fst stack) (stack, s) = (r, stack', s')"
      by (cases "flushLoop cal (map fst stack) (stack, s)") auto
    from flushLoop_keeps_new_key[OF assms(1) l]
    have k: "map_of stack' k = map_of stack k" "cache_staged s' k = cache_staged s k"
       "cache_ModifiedEvents s' = cache_ModifiedEvents s"
      by simp_all
    show ?thesis
    proof (cases r)
      case None
      then have "saveTagsFromCache s = (None, s'\<lparr>cache_ModifiedEvents := Some (Parsed stack')\<rparr>)"
        using st cal l by (simp add: saveTagsFromCache_def)
      then show ?thesis using k d by (simp add: dirtyStatus_def)
    next
      case (Some x)
      then have "saveTagsFromCache s = (Some x, s')"
        using st cal l by (simp add: saveTagsFromCache_def)
      then show ?thesis using k d st by (simp add: dirtyStatus_def)
    qed
  qed
qed

text \<open>
  Claim C3. A dirty key that bears the prefix \<^verbatim>\<open>selectedTags_new_\<close> is skipped by every
  pass: after any number of passes it is still Dirty and its staging entry is what it was,
  and the iteration for it changes neither the index nor the state (so no remote update),
  unless the parse of its staged text raises.
\<close>

theorem new_event_exclusion:
  assumes "startsWith k ''selectedTags_new_''" and "dirtyStatus s k = Some ''Dirty''"
  shows "dirtyStatus (syncPasses n s) k = Some ''Dirty''
       \<and> cache_staged (syncPasses n s) k = cache_staged s k
       \<and> (\<forall>cal stack st. flushKey cal k (stack, st) = Inr (stack, st)
                        \<or> flushKey cal k (stack, st) = Inl SyntaxError)"
proof -
  have "dirtyStatus (syncPasses n s) k = Some ''Dirty''
       \<and> cache_staged (syncPasses n s) k = cache_staged s k"
    using assms(2)
  proof (induction n arbitrary: s)
    case 0
    then show ?case by simp
  next
    case (Suc n)
    from saveTagsFromCache_keeps_new_key[OF assms(1) Suc.prems]
    have a: "dirtyStatus (snd (saveTagsFromCache s)) k = Some ''Dirty''"
      and b: "cache_staged (snd (saveTagsFromCache s)) k = cache_staged s k"
      by simp_all
    from Suc.IH[OF a] b show ?case by simp
  qed
  then show ?thesis using flushKey_new_key[OF assms(1)] by blast
qed

theorem new_event_exclusion_witness:
  "startsWith ''selectedTags_new_u1'' ''selectedTags_new_''
   \<and> dirtyStatus newKeyState ''selectedTags_new_u1'' = Some ''Dirty''
   \<and> dirtyStatus (syncPasses 3 newKeyState) ''selectedTags_new_u1'' = Some ''Dirty''
   \<and> cache_staged (syncPasses 3 newKeyState) ''selectedTags_new_u1''
        = Some (Parsed [''#Personal''])"
proof -
  have h1: "startsWith ''selectedTags_new_u1'' ''selectedTags_new_''"
    by (simp add: startsWith_def)
  have h2: "dirtyStatus newKeyState ''selectedTags_new_u1'' = Some ''Dirty''"
    by (simp add: dirtyStatus_def newKeyState_def)
  have s: "cache_staged newKeyState ''selectedTags_new_u1'' = Some (Parsed [''#Personal''])"
    by (simp add: newKeyState_def)
  from new_event_exclusion[OF h1 h2, of 3] h1 h2 s show ?thesis
    by simp
qed

text \<open>
  Claim C1, at an input where the code departs from it. The index holds one dirty key of
  an existing event, the calendar is reachable (the event is there and may be updated) and
  a staged tag list is live; the event carries extended properties without a private
  section. The assignment of line 325 raises TypeError, which the \<^verbatim>\<open>catch\<close> swallows: the
  pass ends normally with the key still Dirty, its staging entry in place and the event
  untouched.
\<close>

theorem sharedOnly_event_not_flushed:
  "fst (saveTagsFromCache sharedOnlyState) = None
   \<and> dirtyStatus (snd (saveTagsFromCache sharedOnlyState)) ''selectedTags_e1'' = Some ''Dirty''
   \<and> cache_staged (snd (saveTagsFromCache sharedOnlyState)) ''selectedTags_e1''
        = Some (Parsed [''#Work''])
   \<and> remotePayload (snd (saveTagsFromCache sharedOnlyState)) ''cal'' ''e1'' = None
   \<and> Calendar_Events sharedOnlyState (''cal'', ''e1'') \<noteq> None
   \<and> (''cal'', ''e1'') \<notin> Calendar_readOnly sharedOnlyState"
  by (simp add: base_defs sharedOnlyState_def sync_defs)

text \<open>
  Claim C4, at an input where the code departs from it. With a staged text that is not
  JSON under the first of two dirty keys, \<^verbatim>\<open>saveTagsFromCache\<close> lets the SyntaxError of line
  310 escape: the pass ends there and the second key is not flushed. Opening the event of
  that key lets the SyntaxError of line 66 escape as well. \<^verbatim>\<open>handleTagClick\<close> alone takes
  the text for the empty set.
\<close>

theorem malformed_staged_payload_escapes:
  "fst (saveTagsFromCache malformedStagedState) = Some SyntaxError
   \<and> dirtyStatus (snd (saveTagsFromCache malformedStagedState)) ''selectedTags_e2''
        = Some ''Dirty''
   \<and> cache_staged (snd (saveTagsFromCache malformedStagedState)) ''selectedTags_e2''
        = Some (Parsed [''#Work''])
   \<and> remotePayload (snd (saveTagsFromCache malformedStagedState)) ''cal'' ''e2'' = None
   \<and> fst (onCalendarEventOpen malformedStagedState (Some ''cal'') (Some ''e1'') ''u'')
        = Inl SyntaxError
   \<and> stagedSet malformedStagedState ''selectedTags_e1'' = []"
  by (simp add: base_defs malformedStagedState_def sync_defs onCalendarEventOpen_def fetchForOpen_def
        configured_def stagedSet_def Let_def)

subsection \<open>Toggling a tag\<close>

lemma set_fold_Set_add: "set (fold Set_add xs acc) = set acc \<union> set xs"
  by (induction xs arbitrary: acc) (auto simp: Set_add_def)

lemma set_new_Set: "set (new_Set xs) = set xs"
  by (simp add: new_Set_def set_fold_Set_add)

lemma set_toggle:
  "set (toggle t sel) = (if t \<in> set sel then set sel - {t} else insert t (set sel))"
  by (auto simp: toggle_def Set_add_def Set_delete_def)

lemma set_toggle_twice:
  assumes "set b = set (toggle t a)"
  shows "set (toggle t b) = set a"
  using assms by (auto simp: set_toggle split: if_splits)

lemma getUserTags_state:
  "snd (getUserTags s) = s \<or> (\<exists>tags. snd (getUserTags s) = s\<lparr>prop_userTags := Some (Parsed tags)\<rparr>)"
  by (auto simp: getUserTags_def Let_def split: option.splits json_text.splits)

lemma rebuildCard_state:
  "snd (rebuildCard s sel k title) = snd (getUserTags s)"
  by (simp add: rebuildCard_def Let_def split: prod.splits sum.splits)

lemma rebuildCard_cache:
  "cache_staged (snd (rebuildCard s sel k title)) = cache_staged s"
  "cache_ModifiedEvents (snd (rebuildCard s sel k title)) = cache_ModifiedEvents s"
  using getUserTags_state[of s] by (auto simp: rebuildCard_state)

lemma handleTagClick_staged:
  assumes "k \<noteq> []"
  shows "cache_staged (snd (handleTagClick s t (Some k)))
           = (cache_staged s)(k \<mapsto> Parsed (toggle t (stagedSet s k)))"
  using assms
  by (simp add: handleTagClick_def configured_def Let_def pushModifiedEvent_def rebuildCard_cache
        split: option.split json_text.split)

lemma handleTagClick_index:
  assumes "k \<noteq> []"
  shows "cache_ModifiedEvents (snd (handleTagClick s t (Some k)))
           = (case cache_ModifiedEvents s of
                None \<Rightarrow> Some (Parsed [(k, ''Dirty'')])
              | Some Malformed \<Rightarrow> Some Malformed
              | Some (Parsed stack) \<Rightarrow> Some (Parsed (assign k ''Dirty'' stack)))"
  using assms
  by (simp add: handleTagClick_def configured_def Let_def pushModifiedEvent_def rebuildCard_cache
        split: option.split json_text.split)

lemma handleTagClick_noKey:
  "\<not> configured kp \<Longrightarrow> snd (handleTagClick s t kp) = s"
  by (simp add: handleTagClick_def)

lemma stagedSet_after_click:
  assumes "k \<noteq> []"
  shows "set (stagedSet (snd (handleTagClick s t (Some k))) k') =
           (if k' = k then set (toggle t (stagedSet s k)) else set (stagedSet s k'))"
  using assms by (simp add: stagedSet_def handleTagClick_staged set_new_Set)

lemma dirtyStatus_after_click:
  assumes "k \<noteq> []"
  shows "dirtyStatus (snd (handleTagClick s t (Some k))) k' =
           (if cache_ModifiedEvents s = Some Malformed then None
            else if k' = k then Some ''Dirty'' else dirtyStatus s k')"
  using assms
  by (simp add: dirtyStatus_def handleTagClick_index map_of_assign
        split: option.split json_text.split)

text \<open>
  Claim C5, as the code has it. Two clicks on the same tag with the same staging key
  leave every key's staged tag set, as \<^verbatim>\<open>handleTagClick\<close> reads it, with the members it
  had before the first click. The key itself is marked Dirty afterwards whatever its
  status was (each click marks it; the index text must parse), and the status of every
  other key is what it was.
\<close>

theorem toggle_twice_restores_tags_marks_dirty:
  "set (stagedSet (snd (handleTagClick (snd (handleTagClick s tag kp)) tag kp)) k)
     = set (stagedSet s k)
   \<and> (configured kp \<and> cache_ModifiedEvents s \<noteq> Some Malformed \<longrightarrow>
        dirtyStatus (snd (handleTagClick (snd (handleTagClick s tag kp)) tag kp)) (the kp)
          = Some ''Dirty'')
   \<and> (k' \<noteq> the kp \<longrightarrow>
        dirtyStatus (snd (handleTagClick (snd (handleTagClick s tag kp)) tag kp)) k'
          = dirtyStatus s k')"
proof (cases "configured kp")
  case False
  then show ?thesis by (simp add: handleTagClick_noKey)
next
  case True
  then obtain key where kp: "kp = Some key" and key: "key \<noteq> []"
    by (auto simp: configured_def split: option.splits)
  define s1 where "s1 = snd (handleTagClick s tag (Some key))"
  have a: "set (stagedSet (snd (handleTagClick s1 tag (Some key))) k) = set (stagedSet s k)"
  proof (cases "k = key")
    case True
    have "set (stagedSet s1 key) = set (toggle tag (stagedSet s key))"
      unfolding s1_def using stagedSet_after_click[OF key] by simp
    then have "set (toggle tag (stagedSet s1 key)) = set (stagedSet s key)"
      by (rule set_toggle_twice)
    then show ?thesis using True stagedSet_after_click[OF key, of s1 tag k] by simp
  next
    case False
    then show ?thesis
      unfolding s1_def using stagedSet_after_click[OF key] by simp
  qed
  have m: "cache_ModifiedEvents s \<noteq> Some Malformed \<Longrightarrow> cache_ModifiedEvents s1 \<noteq> Some Malformed"
    unfolding s1_def using handleTagClick_index[OF key, of s tag]
    by (simp split: option.splits json_text.splits)
  have b: "cache_ModifiedEvents s \<noteq> Some Malformed \<longrightarrow>
        dirtyStatus (snd (handleTagClick s1 tag (Some key))) key = Some ''Dirty''"
    using m dirtyStatus_after_click[OF key, of s1 tag key] by simp
  have c: "k' \<noteq> key \<longrightarrow> dirtyStatus (snd (handleTagClick s1 tag (Some key))) k' = dirtyStatus s k'"
  proof (cases "cache_ModifiedEvents s = Some Malformed")
    case True
    then have "cache_ModifiedEvents s1 = Some Malformed"
      unfolding s1_def using handleTagClick_index[OF key, of s tag] by simp
    then show ?thesis
      using True dirtyStatus_after_click[OF key, of s1 tag k'] by (simp add: dirtyStatus_def)
  next
    case False
    then show ?thesis
      using m dirtyStatus_after_click[OF key, of s1 tag k']
        dirtyStatus_after_click[OF key, of s tag k']
      by (simp add: s1_def)
  qed
  show ?thesis using a b c kp by (simp add: s1_def)
qed

lemmas panel_defs =
  handleTagClick_def configured_def stagedSet_def toggle_def new_Set_def Set_add_def
  Set_delete_def pushModifiedEvent_def rebuildCard_def getUserTags_def
  fetchTagsFromSpreadsheet_def DEFAULT_USER_TAGS_def dirtyStatus_def Let_def

theorem toggle_twice_restores_tags_marks_dirty_witness:
  "configured (Some ''selectedTags_e1'')
   \<and> cache_ModifiedEvents flushedState \<noteq> Some Malformed
   \<and> ''selectedTags_e2'' \<noteq> the (Some ''selectedTags_e1'')
   \<and> set (stagedSet (snd (handleTagClick (snd (handleTagClick flushedState ''#Work''
             (Some ''selectedTags_e1''))) ''#Work'' (Some ''selectedTags_e1''))) ''selectedTags_e1'')
        = {}
   \<and> dirtyStatus (snd (handleTagClick (snd (handleTagClick flushedState ''#Work''
             (Some ''selectedTags_e1''))) ''#Work'' (Some ''selectedTags_e1''))) ''selectedTags_e1''
        = Some ''Dirty''
   \<and> dirtyStatus (snd (handleTagClick (snd (handleTagClick flushedState ''#Work''
             (Some ''selectedTags_e1''))) ''#Work'' (Some ''selectedTags_e1''))) ''selectedTags_e2''
        = None"
proof -
  have h1: "configured (Some ''selectedTags_e1'')"
    by (simp add: configured_def)
  have h2: "cache_ModifiedEvents flushedState \<noteq> Some Malformed"
    by (simp add: flushedState_def)
  have h3: "''selectedTags_e2'' \<noteq> the (Some ''selectedTags_e1'')"
    by simp
  have b: "set (stagedSet flushedState ''selectedTags_e1'') = {}"
    "dirtyStatus flushedState ''selectedTags_e2'' = None"
    by (simp_all add: stagedSet_def dirtyStatus_def flushedState_def blankState_def)
  from toggle_twice_restores_tags_marks_dirty
         [of flushedState "''#Work''" "Some ''selectedTags_e1''" "''selectedTags_e1''"
             "''selectedTags_e2''"]
       h1 h2 h3 b
  show ?thesis by simp
qed

text \<open>
  The claim as written says the Dirty/Clean status is what it was before the pair. For a
  key the last pass marked Clean it is not: before the two clicks the index says Clean,
  after them Dirty.
\<close>

theorem toggle_twice_clean_becomes_dirty:
  "dirtyStatus flushedState ''selectedTags_e1'' = Some ''Clean''
   \<and> dirtyStatus (snd (handleTagClick (snd (handleTagClick flushedState ''#Work''
             (Some ''selectedTags_e1''))) ''#Work'' (Some ''selectedTags_e1''))) ''selectedTags_e1''
        = Some ''Dirty''"
  by (simp add: flushedState_def base_defs panel_defs)

subsection \<open>Opening an event on a cache miss\<close>

lemmas open_defs =
  onCalendarEventOpen_def fetchForOpen_def configured_def initialiseTags_def
  loadSelectedTags_def Events_get_def extractTagFromTitle_def getUserTags_def
  fetchTagsFromSpreadsheet_def readTagColumn_def columnValues_def getAutoTagFromAttendees_def
  lookupDomainTag_def domainOf_def tagOfCell_def withSigil_def startsWith_def
  new_Set_def Set_add_def rebuildCard_def Let_def DEFAULT_USER_TAGS_def

lemma withSigil_nonempty: "withSigil t \<noteq> []"
  by (cases t) (auto simp: withSigil_def startsWith_def)

lemma tagOfCell_nonempty: "tagOfCell c \<noteq> Returned (Some [])"
  by (cases c) (auto simp: tagOfCell_def withSigil_nonempty)

lemma matchRows_nonempty: "matchRows d doms tags \<noteq> Returned (Some [])"
  by (induction d doms tags rule: matchRows.induct)
     (auto simp: tagOfCell_nonempty split: list.splits)

lemma scanAttendees_nonempty: "scanAttendees atts doms tags \<noteq> Returned (Some [])"
  by (induction atts doms tags rule: scanAttendees.induct)
     (auto simp: matchRows_nonempty split: option.splits exit.splits)

lemma getAutoTag_nonempty: "getAutoTagFromAttendees s atts \<noteq> Some []"
  using scanAttendees_nonempty
  by (auto simp: getAutoTagFromAttendees_def lookupDomainTag_def
      split: exit.splits option.splits sum.splits if_splits)

lemma getAutoTag_cong:
  assumes "prop_spreadsheetId s' = prop_spreadsheetId s" "prop_sheetName s' = prop_sheetName s"
    "prop_column s' = prop_column s" "prop_emailDomainColumn s' = prop_emailDomainColumn s"
    "Spreadsheets s' = Spreadsheets s"
  shows "getAutoTagFromAttendees s' atts = getAutoTagFromAttendees s atts"
  using assms by (simp add: getAutoTagFromAttendees_def lookupDomainTag_def)

lemma loadSelectedTags_cong:
  "Calendar_Events s' = Calendar_Events s \<Longrightarrow> loadSelectedTags s' cal eid = loadSelectedTags s cal eid"
  by (simp add: loadSelectedTags_def Events_get_def)

lemma extractTagFromTitle_cases:
  assumes "prop_userTags s \<noteq> Some Malformed"
  shows "\<exists>tags. fst (extractTagFromTitle s title) = Inr tags
     \<and> (snd (extractTagFromTitle s title) = s
        \<or> (\<exists>ut. snd (extractTagFromTitle s title) = s\<lparr>prop_userTags := Some (Parsed ut)\<rparr>))"
  using assms
  by (auto simp: extractTagFromTitle_def getUserTags_def Let_def
      split: option.splits json_text.splits)

lemma extractTagFromTitle_calendarId:
  "fst (extractTagFromTitle (s\<lparr>cache_calendarId := c\<rparr>) title) = fst (extractTagFromTitle s title)"
  by (auto simp: extractTagFromTitle_def getUserTags_def Let_def fetchTagsFromSpreadsheet_def
        readTagColumn_def
      split: option.splits json_text.splits)


lemma initialiseTags_unfold:
  assumes "(if \<not> configured eventId \<or> loadSelectedTags s cal eventId = []
            then extractTagFromTitle s eventTitle else (Inr [], s)) = (Inr ys, s1)"
  shows "\<exists>title. initialiseTags s cal eventId eventTitle atts key =
     (Inr (case getAutoTagFromAttendees s1 atts of
             None \<Rightarrow> fold Set_add ys (loadSelectedTags s cal eventId)
           | Some tag \<Rightarrow>
               if tag = [] then fold Set_add ys (loadSelectedTags s cal eventId)
               else Set_add tag (fold Set_add ys (loadSelectedTags s cal eventId)), title),
      s1\<lparr>cache_staged := (cache_staged s1)(key \<mapsto>
           Parsed (case getAutoTagFromAttendees s1 atts of
             None \<Rightarrow> fold Set_add ys (loadSelectedTags s cal eventId)
           | Some tag \<Rightarrow>
               if tag = [] then fold Set_add ys (loadSelectedTags s cal eventId)
               else Set_add tag (fold Set_add ys (loadSelectedTags s cal eventId))))\<rparr>)"
  unfolding initialiseTags_def Let_def assms by simp

lemma initialiseTags_staged:
  assumes "prop_userTags s \<noteq> Some Malformed"
  shows "\<exists>sel title s2. initialiseTags s cal eventId eventTitle atts key = (Inr (sel, title), s2)
     \<and> cache_staged s2 key = Some (Parsed sel)
     \<and> set sel = set (loadSelectedTags s cal eventId)
          \<union> (if \<not> configured eventId \<or> loadSelectedTags s cal eventId = []
             then set (titleTags s eventTitle) else {})
          \<union> set_option (getAutoTagFromAttendees s atts)"
proof -
  define loaded where "loaded = loadSelectedTags s cal eventId"
  obtain xs where xs: "fst (extractTagFromTitle s eventTitle) = Inr xs"
    and st: "snd (extractTagFromTitle s eventTitle) = s
        \<or> (\<exists>ut. snd (extractTagFromTitle s eventTitle) = s\<lparr>prop_userTags := Some (Parsed ut)\<rparr>)"
    using extractTagFromTitle_cases[OF assms] by blast
  define ys where "ys = (if \<not> configured eventId \<or> loaded = [] then xs else [])"
  define s1 where "s1 = (if \<not> configured eventId \<or> loaded = []
                         then snd (extractTagFromTitle s eventTitle) else s)"
  have ex: "(if \<not> configured eventId \<or> loadSelectedTags s cal eventId = []
            then extractTagFromTitle s eventTitle else (Inr [], s)) = (Inr ys, s1)"
    using xs by (auto simp: ys_def s1_def loaded_def prod_eq_iff)
  have s1: "s1 = s \<or> (\<exists>ut. s1 = s\<lparr>prop_userTags := Some (Parsed ut)\<rparr>)"
    using st by (auto simp: s1_def)
  have auto_same: "getAutoTagFromAttendees s1 atts = getAutoTagFromAttendees s atts"
    using s1 by (auto intro: getAutoTag_cong)
  have tt: "set ys = (if \<not> configured eventId \<or> loaded = []
             then set (titleTags s eventTitle) else {})"
    using xs by (simp add: ys_def titleTags_def)
  define autoTag where "autoTag = getAutoTagFromAttendees s atts"
  define sel where "sel = (case autoTag of None \<Rightarrow> fold Set_add ys loaded
       | Some tag \<Rightarrow> if tag = [] then fold Set_add ys loaded else Set_add tag (fold Set_add ys loaded))"
  have ne: "autoTag \<noteq> Some []" using getAutoTag_nonempty by (simp add: autoTag_def)
  have set_sel: "set sel = set loaded \<union> set ys \<union> set_option autoTag"
    using ne by (cases autoTag) (auto simp: sel_def set_fold_Set_add Set_add_def)
  from initialiseTags_unfold[OF ex, of atts key]
  have "\<exists>title s2. initialiseTags s cal eventId eventTitle atts key = (Inr (sel, title), s2)
     \<and> cache_staged s2 key = Some (Parsed sel)"
    unfolding auto_same autoTag_def[symmetric] loaded_def[symmetric] sel_def[symmetric]
    by auto
  then show ?thesis
    using set_sel tt by (auto simp: loaded_def autoTag_def)
qed

text \<open>
  Claim C6, as the code has it. On a staging-cache miss at event-open the staged tag set
  is made of the tags loaded from the event, of the tags title extraction yields, added
  exactly when the event is new or the loaded set is empty, and of the tag the
  attendee-domain lookup yields, added in every case, also to a non-empty loaded set.
  (The calendar id is there and the memoised catalog, if any, parses.)
\<close>

theorem cache_miss_initial_tags:
  assumes "configured calendarIdParam"
    and "fetchForOpen s calendarIdParam idParam = (eventId, eventTitle, atts)"
    and "cacheKey = (case eventId of None \<Rightarrow> ''selectedTags_new_'' @ uuid
                     | Some eid \<Rightarrow> ''selectedTags_'' @ eid)"
    and "cache_staged s cacheKey = None"
    and "prop_userTags s \<noteq> Some Malformed"
  shows "\<exists>tags. cache_staged (snd (onCalendarEventOpen s calendarIdParam idParam uuid)) cacheKey
                  = Some (Parsed tags)
     \<and> set tags = set (loadSelectedTags s (the calendarIdParam) eventId)
          \<union> (if eventId = None \<or> loadSelectedTags s (the calendarIdParam) eventId = []
             then set (titleTags s eventTitle) else {})
          \<union> set_option (getAutoTagFromAttendees s atts)"
proof -
  define cal where "cal = the calendarIdParam"
  define s1 where "s1 = s\<lparr>cache_calendarId := Some cal\<rparr>"
  have conf: "configured eventId \<longleftrightarrow> eventId \<noteq> None"
  proof (cases "configured idParam")
    case False
    then have "eventId = None" using assms(2) by (simp add: fetchForOpen_def)
    then show ?thesis by (simp add: configured_def)
  next
    case True
    then have "eventId = None \<or> eventId = idParam"
      using assms(2) by (auto simp: fetchForOpen_def split: sum.splits)
    then show ?thesis using True by (cases idParam) (auto simp: configured_def)
  qed
  have m1: "prop_userTags s1 \<noteq> Some Malformed" using assms(5) by (simp add: s1_def)
  from initialiseTags_staged[OF m1, of cal eventId eventTitle atts cacheKey]
  obtain sel title s2 where
    i: "initialiseTags s1 cal eventId eventTitle atts cacheKey = (Inr (sel, title), s2)"
    and c: "cache_staged s2 cacheKey = Some (Parsed sel)"
    and e: "set sel = set (loadSelectedTags s1 cal eventId)
          \<union> (if \<not> configured eventId \<or> loadSelectedTags s1 cal eventId = []
             then set (titleTags s1 eventTitle) else {})
          \<union> set_option (getAutoTagFromAttendees s1 atts)"
    by blast
  have l: "loadSelectedTags s1 cal eventId = loadSelectedTags s cal eventId"
    by (rule loadSelectedTags_cong) (simp add: s1_def)
  have t: "titleTags s1 eventTitle = titleTags s eventTitle"
    by (simp add: s1_def titleTags_def extractTagFromTitle_calendarId)
  have a: "getAutoTagFromAttendees s1 atts = getAutoTagFromAttendees s atts"
    by (rule getAutoTag_cong) (simp_all add: s1_def)
  have miss: "cache_staged s1 cacheKey = None" using assms(4) by (simp add: s1_def)
  have "snd (onCalendarEventOpen s calendarIdParam idParam uuid)
          = snd (rebuildCard s2 (new_Set sel) cacheKey title)"
    unfolding onCalendarEventOpen_def Let_def assms(2) prod.case
      cal_def[symmetric] s1_def[symmetric] assms(3)[symmetric]
    using assms(1) miss i by simp
  then have "cache_staged (snd (onCalendarEventOpen s calendarIdParam idParam uuid)) cacheKey
               = Some (Parsed sel)"
    using c by (simp add: rebuildCard_cache)
  then show ?thesis
    using e l t a conf by (auto simp: cal_def)
qed

theorem cache_miss_initial_tags_witness:
  "configured (Some ''cal'')
   \<and> fetchForOpen taggedEventState (Some ''cal'') (Some ''e1'')
        = (Some ''e1'', Some ''Sync #Personal'', [\<lparr>email = Some ''a@example.com''\<rparr>])
   \<and> cache_staged taggedEventState ''selectedTags_e1'' = None
   \<and> prop_userTags taggedEventState \<noteq> Some Malformed
   \<and> (\<exists>tags. cache_staged
                 (snd (onCalendarEventOpen taggedEventState (Some ''cal'') (Some ''e1'') ''u''))
                 ''selectedTags_e1'' = Some (Parsed tags)
          \<and> set tags = {''#Work'', ''#Sales''})"
proof -
  have h1: "configured (Some ''cal'')"
    by (simp add: configured_def)
  have h2: "fetchForOpen taggedEventState (Some ''cal'') (Some ''e1'')
        = (Some ''e1'', Some ''Sync #Personal'', [\<lparr>email = Some ''a@example.com''\<rparr>])"
    by (simp add: fetchForOpen_def configured_def Events_get_def sheet_defs taggedEventState_def taggedEvent_def)
  have h3: "''selectedTags_e1'' = (case Some ''e1'' of None \<Rightarrow> ''selectedTags_new_'' @ ''u''
                     | Some eid \<Rightarrow> ''selectedTags_'' @ eid)"
    by simp
  have h4: "cache_staged taggedEventState ''selectedTags_e1'' = None"
    by (simp add: sheet_defs taggedEventState_def taggedEvent_def)
  have h5: "prop_userTags taggedEventState \<noteq> Some Malformed"
    by (simp add: sheet_defs taggedEventState_def taggedEvent_def)
  have l: "loadSelectedTags taggedEventState (the (Some ''cal'')) (Some ''e1'') = [''#Work'']"
    by (simp add: open_defs sheet_defs taggedEventState_def taggedEvent_def)
  have a: "getAutoTagFromAttendees taggedEventState [\<lparr>email = Some ''a@example.com''\<rparr>]
             = Some ''#Sales''"
    by (simp add: open_defs sheet_defs taggedEventState_def taggedEvent_def)
  from cache_miss_initial_tags[OF h1 h2 h3 h4 h5]
  obtain tags where
    "cache_staged (snd (onCalendarEventOpen taggedEventState (Some ''cal'') (Some ''e1'') ''u''))
       ''selectedTags_e1'' = Some (Parsed tags)"
    "set tags = {''#Work'', ''#Sales''}"
    unfolding l a by auto
  then show ?thesis using h1 h2 h4 h5 by blast
qed

text \<open>
  The claim as written says that a non-empty loaded set of an existing event is staged
  as it is, with no derived tag. Here the event carries \<^verbatim>\<open>#Work\<close> and has an attendee at
  \<^verbatim>\<open>example.com\<close>, which the table maps to \<^verbatim>\<open>Sales\<close>: the staged list is \<^verbatim>\<open>#Work\<close>, \<^verbatim>\<open>#Sales\<close>.
\<close>

theorem loaded_tags_get_attendee_tag:
  "cache_staged taggedEventState ''selectedTags_e1'' = None
   \<and> loadSelectedTags taggedEventState ''cal'' (Some ''e1'') = [''#Work'']
   \<and> cache_staged
        (snd (onCalendarEventOpen taggedEventState (Some ''cal'') (Some ''e1'') ''u''))
        ''selectedTags_e1'' = Some (Parsed [''#Work'', ''#Sales''])"
  by (simp add: open_defs sheet_defs taggedEventState_def taggedEvent_def)

subsection \<open>Title extraction\<close>

lemma wordChar_hash: "\<not> wordChar (CHR ''#'')"
  by (simp add: wordChar_def)

lemma hashTokens_word_prefix:
  "\<forall>c\<in>set w. wordChar c \<Longrightarrow> hashTokens (w @ rest) = hashTokens rest"
proof (induction w)
  case Nil
  then show ?case by simp
next
  case (Cons c w)
  then have "c \<noteq> CHR ''#''" using wordChar_hash by auto
  then show ?case using Cons by simp
qed

lemma hashTokens_dropWhile: "hashTokens (dropWhile wordChar cs) = hashTokens cs"
proof -
  have "hashTokens (takeWhile wordChar cs @ dropWhile wordChar cs) = hashTokens (dropWhile wordChar cs)"
    by (rule hashTokens_word_prefix) (auto dest: set_takeWhileD)
  then show ?thesis by simp
qed

lemma tagRegex_matches_hashTokens: "tagRegex_matches title = hashTokens title"
proof (induction title rule: tagRegex_matches.induct)
  case 1
  then show ?case by simp
next
  case (2 c cs)
  then show ?case by (simp add: hashTokens_dropWhile)
qed

lemma set_map_filter:
  "set (List.map_filter f xs) = {y. \<exists>x\<in>set xs. f x = Some y}"
  by (induction xs) (auto simp: List.map_filter_simps split: option.splits)

lemma firstMatch_Some:
  assumes "firstMatch catalog tok = Some tag"
  shows "tag \<in> set catalog \<and> toLowerCase tag = toLowerCase tok"
proof -
  from assms obtain i where "i < length catalog" "catalog ! i = tag"
    "toLowerCase (catalog ! i) = toLowerCase tok"
    unfolding firstMatch_def find_Some_iff by blast
  then show ?thesis using nth_mem by auto
qed

lemma hashTokens_nonempty: "tok \<in> set (hashTokens title) \<Longrightarrow> tok \<noteq> []"
  by (induction title) (auto split: if_splits)

lemma matchingTags_map_filter:
  assumes "\<forall>tok\<in>set toks. tok \<noteq> []"
  shows "matchingTags catalog toks = List.map_filter (firstMatch catalog) toks"
  using assms
proof (induction toks)
  case Nil
  then show ?case by (simp add: List.map_filter_simps)
next
  case (Cons tok toks)
  have ne: "\<And>tag. firstMatch catalog tok = Some tag \<Longrightarrow> tag \<noteq> []"
  proof -
    fix tag assume "firstMatch catalog tok = Some tag"
    then have "toLowerCase tag = toLowerCase tok"
      using firstMatch_Some by simp
    then have "length (toLowerCase tag) = length (toLowerCase tok)"
      by simp
    then have "length tag = length tok"
      by (simp add: toLowerCase_def)
    then show "tag \<noteq> []" using Cons.prems by auto
  qed
  have step: "matchingTags catalog (tok # toks) =
      (case firstMatch catalog tok of
         None \<Rightarrow> matchingTags catalog toks
       | Some m \<Rightarrow> if m = [] then matchingTags catalog toks else m # matchingTags catalog toks)"
    by (simp add: firstMatch_def)
  have ih: "matchingTags catalog toks = List.map_filter (firstMatch catalog) toks"
    using Cons by simp
  show ?case
  proof (cases "firstMatch catalog tok")
    case None
    then show ?thesis unfolding step ih by (simp add: List.map_filter_simps)
  next
    case (Some tag)
    then show ?thesis unfolding step ih using ne[OF Some] by (simp add: List.map_filter_simps)
  qed
qed

lemma set_map_filter_firstMatch_subset:
  "set (List.map_filter (firstMatch catalog) toks)
     \<subseteq> {tag \<in> set catalog. \<exists>tok\<in>set toks. toLowerCase tag = toLowerCase tok}"
  using firstMatch_Some by (auto simp: set_map_filter)

lemma firstMatch_unique:
  assumes "caseInsensitivelyDistinct catalog" "tag \<in> set catalog" "toLowerCase tag = toLowerCase tok"
  shows "firstMatch catalog tok = Some tag"
proof -
  have "\<exists>x. firstMatch catalog tok = Some x"
    using assms(2,3) unfolding firstMatch_def
    by (cases "find (\<lambda>tag. toLowerCase tag = toLowerCase tok) catalog") (auto simp: find_None_iff)
  then obtain x where x: "firstMatch catalog tok = Some x" by blast
  then have "x \<in> set catalog" "toLowerCase x = toLowerCase tok"
    using firstMatch_Some by simp_all
  then have "x = tag" using assms unfolding caseInsensitivelyDistinct_def by auto
  then show ?thesis using x by simp
qed

lemma set_map_filter_firstMatch_eq:
  assumes "caseInsensitivelyDistinct catalog"
  shows "set (List.map_filter (firstMatch catalog) toks)
     = {tag \<in> set catalog. \<exists>tok\<in>set toks. toLowerCase tag = toLowerCase tok}"
proof
  show "set (List.map_filter (firstMatch catalog) toks)
     \<subseteq> {tag \<in> set catalog. \<exists>tok\<in>set toks. toLowerCase tag = toLowerCase tok}"
    by (rule set_map_filter_firstMatch_subset)
next
  show "{tag \<in> set catalog. \<exists>tok\<in>set toks. toLowerCase tag = toLowerCase tok}
     \<subseteq> set (List.map_filter (firstMatch catalog) toks)"
  proof
    fix tag assume "tag \<in> {tag \<in> set catalog. \<exists>tok\<in>set toks. toLowerCase tag = toLowerCase tok}"
    then obtain tok where "tag \<in> set catalog" "tok \<in> set toks" "toLowerCase tag = toLowerCase tok"
      by blast
    then have "firstMatch catalog tok = Some tag" "tok \<in> set toks"
      using firstMatch_unique[OF assms] by simp_all
    then show "tag \<in> set (List.map_filter (firstMatch catalog) toks)"
      by (auto simp: set_map_filter)
  qed
qed

text \<open>
  Claim C7, as the code has it. With the catalog \<^verbatim>\<open>getUserTags\<close> returns, title extraction
  yields, for the tokens of the form \<^verbatim>\<open>#\<close>\<open>word characters\<close> of the title in their order,
  the first catalog tag that equals the token when case is ignored, and nothing for a token
  no catalog tag equals. Every tag returned is a catalog tag that equals some token up to
  case; when no two catalog tags are equal up to case, the tags returned are exactly the
  catalog tags that equal some token up to case.
\<close>

theorem title_extraction_first_match:
  assumes "getUserTags s = (Inr catalog, s')"
  shows "fst (extractTagFromTitle s (Some title))
           = Inr (List.map_filter (firstMatch catalog) (hashTokens title))
     \<and> set (List.map_filter (firstMatch catalog) (hashTokens title))
           \<subseteq> {tag \<in> set catalog. \<exists>tok\<in>set (hashTokens title). toLowerCase tag = toLowerCase tok}
     \<and> (caseInsensitivelyDistinct catalog \<longrightarrow>
          set (List.map_filter (firstMatch catalog) (hashTokens title))
           = {tag \<in> set catalog. \<exists>tok\<in>set (hashTokens title). toLowerCase tag = toLowerCase tok})"
proof -
  have "matchingTags catalog (tagRegex_matches title)
          = List.map_filter (firstMatch catalog) (hashTokens title)"
  proof -
    have "\<forall>tok\<in>set (hashTokens title). tok \<noteq> []"
      using hashTokens_nonempty by blast
    then show ?thesis
      using matchingTags_map_filter[of "hashTokens title" catalog]
      by (simp add: tagRegex_matches_hashTokens)
  qed
  then have "fst (extractTagFromTitle s (Some title))
           = Inr (List.map_filter (firstMatch catalog) (hashTokens title))"
    using assms by (cases title) (simp_all add: extractTagFromTitle_def)
  moreover note set_map_filter_firstMatch_subset[of catalog "hashTokens title"]
  moreover have "caseInsensitivelyDistinct catalog \<longrightarrow>
          set (List.map_filter (firstMatch catalog) (hashTokens title))
           = {tag \<in> set catalog. \<exists>tok\<in>set (hashTokens title). toLowerCase tag = toLowerCase tok}"
    using set_map_filter_firstMatch_eq by blast
  ultimately show ?thesis by (intro conjI)
qed

lemmas title_defs =
  extractTagFromTitle_def getUserTags_def fetchTagsFromSpreadsheet_def readTagColumn_def
  columnValues_def configured_def withSigil_def startsWith_def new_Set_def Set_add_def
  DEFAULT_USER_TAGS_def wordChar_def toLowerCase_def toLowerChar_def firstMatch_def
  List.map_filter_simps Let_def

theorem title_extraction_first_match_witness:
  "getUserTags memoState = (Inr [''#Work'', ''#Personal''], memoState)
   \<and> caseInsensitivelyDistinct [''#Work'', ''#Personal'']
   \<and> fst (extractTagFromTitle memoState (Some ''Sync #Work with #bogus team'')) = Inr [''#Work'']
   \<and> {tag \<in> set [''#Work'', ''#Personal''].
         \<exists>tok\<in>set (hashTokens ''Sync #Work with #bogus team'').
            toLowerCase tag = toLowerCase tok} = {''#Work''}"
proof -
  have h1: "getUserTags memoState = (Inr [''#Work'', ''#Personal''], memoState)"
    by (simp add: getUserTags_def memoState_def blankState_def)
  have h2: "caseInsensitivelyDistinct [''#Work'', ''#Personal'']"
    by (simp add: caseInsensitivelyDistinct_def toLowerCase_def toLowerChar_def)
  have e: "List.map_filter (firstMatch [''#Work'', ''#Personal''])
             (hashTokens ''Sync #Work with #bogus team'') = [''#Work'']"
    by (simp add: title_defs)
  from title_extraction_first_match[OF h1, of "''Sync #Work with #bogus team''"] h1 h2
  show ?thesis unfolding e by simp
qed

text \<open>
  The claim as written says that exactly the catalog tags equal to some token up to case
  are returned. With a sheet that lists \<^verbatim>\<open>work\<close> the catalog holds \<^verbatim>\<open>#Work\<close> and \<^verbatim>\<open>#work\<close>; for
  the title \<^verbatim>\<open>Review #work\<close> the token is \<^verbatim>\<open>#work\<close> and only \<^verbatim>\<open>#Work\<close> is returned.
\<close>

theorem case_variant_tag_not_returned:
  "fst (getUserTags caseVariantState)
     = Inr [''#Work'', ''#Personal'', ''#Internal_Meeting'', ''#External_Meeting'', ''#work'']
   \<and> tagRegex_matches ''Review #work'' = [''#work'']
   \<and> fst (extractTagFromTitle caseVariantState (Some ''Review #work'')) = Inr [''#Work'']"
  by (simp add: title_defs sheet_defs caseVariantState_def caseVariantSheet_def)

subsection \<open>Attendee-domain lookup\<close>

lemma split_no_sep: "c \<notin> set xs \<Longrightarrow> split xs c = [xs]"
  by (induction xs) auto

lemma split_nonempty: "split xs c \<noteq> []"
  by (induction xs) (auto split: list.splits)

lemma split_first_sep:
  "c \<in> set xs \<Longrightarrow>
   split xs c = takeWhile (\<lambda>x. x \<noteq> c) xs # split (tl (dropWhile (\<lambda>x. x \<noteq> c) xs)) c"
proof (induction xs)
  case Nil
  then show ?case by simp
next
  case (Cons x xs)
  show ?case
  proof (cases "x = c")
    case True
    then show ?thesis by simp
  next
    case False
    then have "c \<in> set xs" using Cons.prems by simp
    then show ?thesis using False Cons.IH by simp
  qed
qed

lemma hd_split: "hd (split xs c) = takeWhile (\<lambda>x. x \<noteq> c) xs"
proof (induction xs)
  case Nil
  then show ?case by simp
next
  case (Cons x xs)
  show ?case
  proof (cases "x = c")
    case True
    then show ?thesis by simp
  next
    case False
    obtain y ys where s: "split xs c = y # ys"
      using split_nonempty[of xs c] by (cases "split xs c") auto
    then have "y = takeWhile (\<lambda>x. x \<noteq> c) xs" using Cons.IH by simp
    then show ?thesis using False s by simp
  qed
qed

lemma domainOf_domainPart: "domainOf addr = domainPart addr"
proof (cases "CHR ''@'' \<in> set addr")
  case False
  then show ?thesis by (simp add: domainOf_def domainPart_def split_no_sep)
next
  case True
  define rest where "rest = tl (dropWhile (\<lambda>x. x \<noteq> CHR ''@'') addr)"
  obtain y ys where s: "split rest (CHR ''@'') = y # ys"
    using split_nonempty[of rest "CHR ''@''"] by (cases "split rest (CHR ''@'')") auto
  then have "y = takeWhile (\<lambda>x. x \<noteq> CHR ''@'') rest"
    using hd_split[of rest "CHR ''@''"] by simp
  then show ?thesis
    using True s split_first_sep[OF True] by (simp add: domainOf_def domainPart_def rest_def)
qed

lemma matchRows_None: "matchRows None doms tags = Fallthrough"
  by (induction doms arbitrary: tags) (auto split: cellval.splits)

lemma matchRows_find:
  assumes "length doms = length tags"
  shows "matchRows (Some d) doms tags =
     (case find (\<lambda>row. fst row = Text d) (zip doms tags) of
        None \<Rightarrow> Fallthrough
      | Some row \<Rightarrow> tagOfCell (snd row))"
  using assms
proof (induction doms arbitrary: tags)
  case Nil
  then show ?case by simp
next
  case (Cons x doms)
  then obtain t tags' where tags: "tags = t # tags'" "length doms = length tags'"
    by (cases tags) auto
  show ?case
  proof (cases "x = Text d")
    case True
    then show ?thesis using tags by simp
  next
    case False
    then have "\<not> (case x of Text y \<Rightarrow> Some y = Some d | NonText b \<Rightarrow> False)"
      by (cases x) auto
    then show ?thesis using False tags Cons.IH[OF tags(2)] by simp
  qed
qed

lemma tagOfCell_value:
  "(case tagOfCell c of Returned t \<Rightarrow> t | Fallthrough \<Rightarrow> None | Raised x \<Rightarrow> None)
     = (case c of Text t \<Rightarrow> if t = [] then None else Some (withSigil t) | NonText b \<Rightarrow> None)"
  by (cases c) (auto simp: tagOfCell_def)

lemma tagOfCell_not_Fallthrough: "tagOfCell c \<noteq> Fallthrough"
  by (cases c) (auto simp: tagOfCell_def)

lemma scanAttendees_step_none:
  assumes "length doms = length tags" and "rowOf (zip doms tags) a = None"
  shows "scanAttendees (a # atts) doms tags = scanAttendees atts doms tags"
proof (cases "email a")
  case None
  then show ?thesis by simp
next
  case (Some e)
  show ?thesis
  proof (cases "e = []")
    case True
    then show ?thesis using Some by simp
  next
    case False
    show ?thesis
    proof (cases "domainPart e")
      case None
      then show ?thesis
        using Some False by (simp add: domainOf_domainPart matchRows_None)
    next
      case d: (Some d)
      then have "find (\<lambda>row. fst row = Text d) (zip doms tags) = None"
        using assms(2) Some False by (simp add: rowOf_def)
      then have "matchRows (Some d) doms tags = Fallthrough"
        by (simp add: matchRows_find[OF assms(1)])
      then show ?thesis
        using Some False d by (simp add: domainOf_domainPart)
    qed
  qed
qed

lemma scanAttendees_step_row:
  assumes "length doms = length tags" and "rowOf (zip doms tags) a = Some row"
  shows "scanAttendees (a # atts) doms tags = tagOfCell (snd row)"
proof -
  from assms(2) obtain e d where e: "email a = Some e" "e \<noteq> []" "domainPart e = Some d"
    and f: "find (\<lambda>row. fst row = Text d) (zip doms tags) = Some row"
    by (auto simp: rowOf_def split: option.splits if_splits)
  have "matchRows (Some d) doms tags = tagOfCell (snd row)"
    using f by (simp add: matchRows_find[OF assms(1)])
  then show ?thesis
    using e tagOfCell_not_Fallthrough[of "snd row"]
    by (cases "tagOfCell (snd row)") (simp_all add: domainOf_domainPart)
qed

lemma scanAttendees_decidingRow:
  assumes "length doms = length tags"
  shows "(case scanAttendees atts doms tags of
            Returned t \<Rightarrow> t | Fallthrough \<Rightarrow> None | Raised x \<Rightarrow> None)
         = (case decidingRow atts (zip doms tags) of
              None \<Rightarrow> None
            | Some row \<Rightarrow>
                (case snd row of
                   Text t \<Rightarrow> if t = [] then None else Some (withSigil t)
                 | NonText b \<Rightarrow> None))"
proof (induction atts)
  case Nil
  then show ?case by (simp add: decidingRow_def)
next
  case (Cons a atts)
  show ?case
  proof (cases "rowOf (zip doms tags) a")
    case None
    then have "decidingRow (a # atts) (zip doms tags) = decidingRow atts (zip doms tags)"
      by (simp add: decidingRow_def)
    then show ?thesis
      using scanAttendees_step_none[OF assms None] Cons.IH by simp
  next
    case (Some row)
    then have "decidingRow (a # atts) (zip doms tags) = Some row"
      by (simp add: decidingRow_def)
    then show ?thesis
      using scanAttendees_step_row[OF assms Some] by (simp add: tagOfCell_value)
  qed
qed

lemma getAutoTag_no_table:
  "domainTable s = None \<Longrightarrow> getAutoTagFromAttendees s atts = None"
  by (auto simp: domainTable_def getAutoTagFromAttendees_def lookupDomainTag_def columnValues_def
      split: option.splits if_splits)

lemma getAutoTag_table:
  assumes "domainTable s = Some rows"
  shows "\<exists>doms tags. rows = zip doms tags \<and> length doms = length tags
     \<and> getAutoTagFromAttendees s atts =
         (case scanAttendees atts doms tags of Returned t \<Rightarrow> t | Fallthrough \<Rightarrow> None | Raised x \<Rightarrow> None)"
proof -
  from assms obtain spreadsheet sh where
    c: "configured (prop_spreadsheetId s)" "configured (prop_sheetName s)"
       "configured (prop_column s)" "configured (prop_emailDomainColumn s)"
    and o: "Spreadsheets s (the (prop_spreadsheetId s)) = Some spreadsheet"
       "spreadsheet (the (prop_sheetName s)) = Some sh"
    and r: "lastRow sh \<noteq> 0" "hasColumn sh (the (prop_column s))"
       "hasColumn sh (the (prop_emailDomainColumn s))"
    and rows: "rows = zip (map (cellAt sh (the (prop_emailDomainColumn s))) [0..<lastRow sh])
                       (map (cellAt sh (the (prop_column s))) [0..<lastRow sh])"
    by (auto simp: domainTable_def split: if_splits option.splits)
  have "getAutoTagFromAttendees s atts =
         (case scanAttendees atts (map (cellAt sh (the (prop_emailDomainColumn s))) [0..<lastRow sh])
                 (map (cellAt sh (the (prop_column s))) [0..<lastRow sh])
          of Returned t \<Rightarrow> t | Fallthrough \<Rightarrow> None | Raised x \<Rightarrow> None)"
    using c o r by (simp add: getAutoTagFromAttendees_def lookupDomainTag_def columnValues_def)
  then show ?thesis using rows by (intro exI conjI) (assumption, simp, assumption)
qed

lemma getAutoTag_decidingRow:
  assumes "domainTable s = Some rows"
  shows "getAutoTagFromAttendees s atts =
     (case decidingRow atts rows of
        None \<Rightarrow> None
      | Some row \<Rightarrow>
          (case snd row of
             Text t \<Rightarrow> if t = [] then None else Some (withSigil t)
           | NonText b \<Rightarrow> None))"
proof -
  from getAutoTag_table[OF assms, of atts] obtain doms tags where
    "rows = zip doms tags" "length doms = length tags"
    "getAutoTagFromAttendees s atts =
         (case scanAttendees atts doms tags of Returned t \<Rightarrow> t | Fallthrough \<Rightarrow> None | Raised x \<Rightarrow> None)"
    by blast
  then show ?thesis using scanAttendees_decidingRow[of doms tags atts] by simp
qed

text \<open>
  Claim C8. Without a readable configured table the lookup yields no tag. With one, the
  attendees are taken in list order, and the first attendee whose domain part (the text
  between the first \<^verbatim>\<open>@\<close> of the email and the next \<^verbatim>\<open>@\<close> or the end) is the domain cell of some
  row decides: the lookup yields the tag cell of the first such row in row order, with the
  sigil put in front if it is missing, and no tag when that cell is empty or holds a value
  that is not text. It yields no tag when no attendee has a row. The result is an
  optional tag, so at most one; the function has no exceptional result.
\<close>

theorem attendee_domain_lookup:
  "(domainTable s = None \<longrightarrow> getAutoTagFromAttendees s atts = None)
   \<and> (domainTable s = Some rows \<longrightarrow>
        getAutoTagFromAttendees s atts =
          (case decidingRow atts rows of
             None \<Rightarrow> None
           | Some row \<Rightarrow>
               (case snd row of
                  Text t \<Rightarrow> if t = [] then None else Some (withSigil t)
                | NonText b \<Rightarrow> None)))"
  using getAutoTag_no_table getAutoTag_decidingRow by blast

lemmas lookup_defs =
  getAutoTagFromAttendees_def lookupDomainTag_def columnValues_def configured_def
  domainOf_def tagOfCell_def withSigil_def startsWith_def domainTable_def

theorem attendee_domain_lookup_witness:
  "domainTable blankState = None
   \<and> getAutoTagFromAttendees blankState [\<lparr>email = Some ''a@example.com''\<rparr>] = None
   \<and> domainTable salesState = Some [(Text ''example.com'', Text ''Sales'')]
   \<and> getAutoTagFromAttendees salesState [\<lparr>email = Some ''a@example.com''\<rparr>] = Some ''#Sales''
   \<and> domainTable configuredState
        = Some [(Text ''example.com'', Text ''Sales''), (Text ''corp.example'', Text ''#Work''),
                (Text [], Text ''Sales'')]
   \<and> getAutoTagFromAttendees configuredState
        [\<lparr>email = None\<rparr>, \<lparr>email = Some ''nobody''\<rparr>, \<lparr>email = Some ''b@corp.example''\<rparr>,
         \<lparr>email = Some ''a@example.com''\<rparr>] = Some ''#Work''
   \<and> getAutoTagFromAttendees configuredState [\<lparr>email = Some ''c@nowhere.net''\<rparr>] = None"
proof -
  have h1: "domainTable blankState = None"
    by (simp add: domainTable_def configured_def blankState_def)
  have h2: "domainTable salesState = Some [(Text ''example.com'', Text ''Sales'')]"
    by (simp add: domainTable_def configured_def sheet_defs salesState_def salesSheet_def)
  have h3: "domainTable configuredState
        = Some [(Text ''example.com'', Text ''Sales''), (Text ''corp.example'', Text ''#Work''),
                (Text [], Text ''Sales'')]"
    by (simp add: domainTable_def configured_def sheet_defs)
  from attendee_domain_lookup[of blankState "[\<lparr>email = Some ''a@example.com''\<rparr>]"] h1
  have a: "getAutoTagFromAttendees blankState [\<lparr>email = Some ''a@example.com''\<rparr>] = None"
    by blast
  from attendee_domain_lookup[of salesState "[\<lparr>email = Some ''a@example.com''\<rparr>]"
         "[(Text ''example.com'', Text ''Sales'')]"] h2
  have b: "getAutoTagFromAttendees salesState [\<lparr>email = Some ''a@example.com''\<rparr>] = Some ''#Sales''"
    by (simp add: decidingRow_def rowOf_def domainPart_def withSigil_def startsWith_def)
  from attendee_domain_lookup[of configuredState
         "[\<lparr>email = None\<rparr>, \<lparr>email = Some ''nobody''\<rparr>, \<lparr>email = Some ''b@corp.example''\<rparr>,
           \<lparr>email = Some ''a@example.com''\<rparr>]"
         "[(Text ''example.com'', Text ''Sales''), (Text ''corp.example'', Text ''#Work''),
           (Text [], Text ''Sales'')]"] h3
  have c: "getAutoTagFromAttendees configuredState
        [\<lparr>email = None\<rparr>, \<lparr>email = Some ''nobody''\<rparr>, \<lparr>email = Some ''b@corp.example''\<rparr>,
         \<lparr>email = Some ''a@example.com''\<rparr>] = Some ''#Work''"
    by (simp add: decidingRow_def rowOf_def domainPart_def withSigil_def startsWith_def)
  from attendee_domain_lookup[of configuredState "[\<lparr>email = Some ''c@nowhere.net''\<rparr>]"
         "[(Text ''example.com'', Text ''Sales''), (Text ''corp.example'', Text ''#Work''),
           (Text [], Text ''Sales'')]"] h3
  have d: "getAutoTagFromAttendees configuredState [\<lparr>email = Some ''c@nowhere.net''\<rparr>] = None"
    by (simp add: decidingRow_def rowOf_def domainPart_def)
  show ?thesis using h1 h2 h3 a b c d by simp
qed

text \<open>
  The claim as the spec words it fails in three ways. With the attendees
  \<^verbatim>\<open>b@corp.example\<close>, \<^verbatim>\<open>a@example.com\<close> and the table of the configured sheet, the first row
  in row order that has the domain of an attendee is the row of \<^verbatim>\<open>example.com\<close>, with the
  tag \<^verbatim>\<open>Sales\<close>; the lookup yields \<^verbatim>\<open>#Work\<close>, the tag of the row of the first attendee. For the
  address \<^verbatim>\<open>x@y@example.com\<close> the substring after the \<^verbatim>\<open>@\<close> is \<^verbatim>\<open>y@example.com\<close>, which no row
  has; the lookup takes \<^verbatim>\<open>y\<close> and yields the tag of that row. For \<^verbatim>\<open>a@example.org\<close> the row
  of the domain holds a number as its tag; the lookup yields no tag.
\<close>

theorem lookup_differs_from_first_row_by_row_order:
  "firstRowForAnyAttendee
       [\<lparr>email = Some ''b@corp.example''\<rparr>, \<lparr>email = Some ''a@example.com''\<rparr>]
       (the (domainTable configuredState))
     = Some (Text ''example.com'', Text ''Sales'')
   \<and> getAutoTagFromAttendees configuredState
        [\<lparr>email = Some ''b@corp.example''\<rparr>, \<lparr>email = Some ''a@example.com''\<rparr>] = Some ''#Work''
   \<and> domainTable numberCellState
        = Some [(Text ''y'', Text ''Ops''), (Text ''example.org'', NonText True)]
   \<and> afterAt ''x@y@example.com'' = Some ''y@example.com''
   \<and> firstRowForAnyAttendee [\<lparr>email = Some ''x@y@example.com''\<rparr>]
        (the (domainTable numberCellState)) = None
   \<and> getAutoTagFromAttendees numberCellState [\<lparr>email = Some ''x@y@example.com''\<rparr>] = Some ''#Ops''
   \<and> firstRowForAnyAttendee [\<lparr>email = Some ''a@example.org''\<rparr>]
        (the (domainTable numberCellState)) = Some (Text ''example.org'', NonText True)
   \<and> getAutoTagFromAttendees numberCellState [\<lparr>email = Some ''a@example.org''\<rparr>] = None"
proof -
  have t1: "domainTable configuredState
        = Some [(Text ''example.com'', Text ''Sales''), (Text ''corp.example'', Text ''#Work''),
                (Text [], Text ''Sales'')]"
    by (simp add: domainTable_def configured_def sheet_defs)
  have t2: "domainTable numberCellState
        = Some [(Text ''y'', Text ''Ops''), (Text ''example.org'', NonText True)]"
    by (simp add: domainTable_def configured_def sheet_defs upt_0_2 numberCellState_def
          numberCellSheet_def)
  have r1: "firstRowForAnyAttendee
       [\<lparr>email = Some ''b@corp.example''\<rparr>, \<lparr>email = Some ''a@example.com''\<rparr>]
       (the (domainTable configuredState))
     = Some (Text ''example.com'', Text ''Sales'')"
    by (simp add: t1 firstRowForAnyAttendee_def attendeeDomain_def afterAt_def)
  have r2: "firstRowForAnyAttendee [\<lparr>email = Some ''x@y@example.com''\<rparr>]
        (the (domainTable numberCellState)) = None"
    by (simp add: t2 firstRowForAnyAttendee_def attendeeDomain_def afterAt_def)
  have r3: "firstRowForAnyAttendee [\<lparr>email = Some ''a@example.org''\<rparr>]
        (the (domainTable numberCellState)) = Some (Text ''example.org'', NonText True)"
    by (simp add: t2 firstRowForAnyAttendee_def attendeeDomain_def afterAt_def)
  have c1: "getAutoTagFromAttendees configuredState
        [\<lparr>email = Some ''b@corp.example''\<rparr>, \<lparr>email = Some ''a@example.com''\<rparr>] = Some ''#Work''"
    by (simp add: lookup_defs sheet_defs)
  have c2: "getAutoTagFromAttendees numberCellState [\<lparr>email = Some ''x@y@example.com''\<rparr>]
              = Some ''#Ops''"
    by (simp add: lookup_defs sheet_defs upt_0_2 numberCellState_def numberCellSheet_def)
  have c3: "getAutoTagFromAttendees numberCellState [\<lparr>email = Some ''a@example.org''\<rparr>] = None"
    by (simp add: lookup_defs sheet_defs upt_0_2 numberCellState_def numberCellSheet_def)
  have a: "afterAt ''x@y@example.com'' = Some ''y@example.com''"
    by (simp add: afterAt_def)
  show ?thesis using t2 r1 r2 r3 c1 c2 c3 a by simp
qed

lemma matchRows_no_row:
  "\<forall>x\<in>set doms. Some x \<noteq> map_option Text dmn \<Longrightarrow> matchRows dmn doms tags = Fallthrough"
proof (induction doms arbitrary: tags)
  case Nil
  then show ?case by simp
next
  case (Cons x doms)
  then have "\<not> (case x of Text y \<Rightarrow> Some y = dmn | NonText b \<Rightarrow> False)"
    by (cases x; cases dmn) auto
  then show ?case using Cons by simp
qed

lemma matchRows_first_row:
  assumes "length dpre = length tpre" and "\<forall>x\<in>set dpre. x \<noteq> Text d"
  shows "matchRows (Some d) (dpre @ Text d # dpost) (tpre @ t # tpost) = tagOfCell t"
  using assms
proof (induction dpre arbitrary: tpre)
  case Nil
  then show ?case by simp
next
  case (Cons x dpre)
  then obtain y tpre' where t: "tpre = y # tpre'" "length dpre = length tpre'"
    by (cases tpre) auto
  have "\<not> (case x of Text z \<Rightarrow> Some z = Some d | NonText b \<Rightarrow> False)"
    using Cons.prems(2) by (cases x) auto
  then show ?case using t Cons by simp
qed

lemma scanAttendees_skip:
  assumes "\<forall>b\<in>set before. matchRows (emailDomain b) doms tags = Fallthrough"
  shows "scanAttendees (before @ rest) doms tags = scanAttendees rest doms tags"
  using assms
proof (induction before)
  case Nil
  then show ?case by simp
next
  case (Cons b before)
  have "scanAttendees (b # before @ rest) doms tags = scanAttendees (before @ rest) doms tags"
  proof (cases "email b")
    case None
    then show ?thesis by simp
  next
    case (Some e)
    show ?thesis
    proof (cases "e = []")
      case True
      then show ?thesis using Some by simp
    next
      case False
      then have "matchRows (domainOf e) doms tags = Fallthrough"
        using Cons.prems Some by (simp add: emailDomain_def)
      then show ?thesis using Some False by simp
    qed
  qed
  then show ?case using Cons by simp
qed

lemma scanAttendees_hit:
  assumes "emailDomain a = Some d" and "matchRows (Some d) doms tags = Returned r"
  shows "scanAttendees (a # rest) doms tags = Returned r"
proof -
  from assms(1) obtain e where "email a = Some e" "e \<noteq> []" "domainOf e = Some d"
    by (auto simp: emailDomain_def split: option.splits if_splits)
  then show ?thesis using assms(2) by simp
qed

text \<open>
  Claim C10. When the first attendee whose domain some row has is found, and the first row
  for that domain has an empty tag cell, the lookup yields no tag, whatever rows follow in
  the table and whatever attendees follow in the list.
\<close>

theorem empty_tag_cell_ends_lookup:
  assumes "domainTable s = Some (rowsBefore @ (Text d, Text []) # rowsAfter)"
    and "\<forall>row\<in>set rowsBefore. fst row \<noteq> Text d"
    and "emailDomain a = Some d"
    and "\<forall>b\<in>set before. \<forall>d'. emailDomain b = Some d' \<longrightarrow>
           (\<forall>row\<in>set (rowsBefore @ (Text d, Text []) # rowsAfter). fst row \<noteq> Text d')"
  shows "getAutoTagFromAttendees s (before @ a # after) = None"
proof -
  define rows where "rows = rowsBefore @ (Text d, Text []) # rowsAfter"
  from getAutoTag_table[OF assms(1), of "before @ a # after"] obtain doms tags where
    z: "rows = zip doms tags" and len: "length doms = length tags"
    and r: "getAutoTagFromAttendees s (before @ a # after) =
         (case scanAttendees (before @ a # after) doms tags of
            Returned t \<Rightarrow> t | Fallthrough \<Rightarrow> None | Raised x \<Rightarrow> None)"
    unfolding rows_def by blast
  have doms: "doms = map fst rowsBefore @ Text d # map fst rowsAfter"
  proof -
    have "map fst rows = doms" using z len by simp
    then show ?thesis by (simp add: rows_def)
  qed
  have tags: "tags = map snd rowsBefore @ Text [] # map snd rowsAfter"
  proof -
    have "map snd rows = tags" using z len by simp
    then show ?thesis by (simp add: rows_def)
  qed
  have skip: "\<forall>b\<in>set before. matchRows (emailDomain b) doms tags = Fallthrough"
  proof
    fix b assume b: "b \<in> set before"
    have "\<forall>x\<in>set doms. Some x \<noteq> map_option Text (emailDomain b)"
    proof (cases "emailDomain b")
      case None
      then show ?thesis by simp
    next
      case (Some d')
      then have "\<forall>row\<in>set rows. fst row \<noteq> Text d'"
        using assms(4) b unfolding rows_def by blast
      moreover have "set doms = fst ` set rows"
        using z len by (metis list.set_map map_fst_zip)
      ultimately show ?thesis using Some by auto
    qed
    then show "matchRows (emailDomain b) doms tags = Fallthrough"
      by (rule matchRows_no_row)
  qed
  have "matchRows (Some d) doms tags = tagOfCell (Text [])"
    unfolding doms tags using assms(2) by (intro matchRows_first_row) auto
  then have hit: "matchRows (Some d) doms tags = Returned None"
    by (simp add: tagOfCell_def)
  have "scanAttendees (before @ a # after) doms tags = scanAttendees (a # after) doms tags"
    using skip by (rule scanAttendees_skip)
  also have "\<dots> = Returned None"
    using assms(3) hit by (rule scanAttendees_hit)
  finally show ?thesis using r by simp
qed

theorem empty_tag_cell_ends_lookup_witness:
  "domainTable emptyTagState
     = Some ([(Text ''other.org'', Text ''Ops'')] @ (Text ''example.com'', Text [])
               # [(Text ''example.com'', Text ''Sales'')])
   \<and> emailDomain \<lparr>email = Some ''a@example.com''\<rparr> = Some ''example.com''
   \<and> getAutoTagFromAttendees emptyTagState
        ([\<lparr>email = Some ''c@nowhere.net''\<rparr>] @ \<lparr>email = Some ''a@example.com''\<rparr>
           # [\<lparr>email = Some ''b@other.org''\<rparr>]) = None
   \<and> getAutoTagFromAttendees emptyTagState [\<lparr>email = Some ''b@other.org''\<rparr>] = Some ''#Ops''"
proof -
  have h1: "domainTable emptyTagState
     = Some ([(Text ''other.org'', Text ''Ops'')] @ (Text ''example.com'', Text [])
               # [(Text ''example.com'', Text ''Sales'')])"
    by (simp add: domainTable_def configured_def sheet_defs emptyTagState_def emptyTagSheet_def)
  have h2: "\<forall>row\<in>set [(Text ''other.org'', Text ''Ops'')]. fst row \<noteq> Text ''example.com''"
    by simp
  have h3: "emailDomain \<lparr>email = Some ''a@example.com''\<rparr> = Some ''example.com''"
    by (simp add: emailDomain_def domainOf_def)
  have h4: "\<forall>b\<in>set [\<lparr>email = Some ''c@nowhere.net''\<rparr>]. \<forall>d'. emailDomain b = Some d' \<longrightarrow>
           (\<forall>row\<in>set ([(Text ''other.org'', Text ''Ops'')] @ (Text ''example.com'', Text [])
               # [(Text ''example.com'', Text ''Sales'')]).
              fst row \<noteq> Text d')"
    by (simp add: emailDomain_def domainOf_def)
  have o: "getAutoTagFromAttendees emptyTagState [\<lparr>email = Some ''b@other.org''\<rparr>] = Some ''#Ops''"
    by (simp add: lookup_defs sheet_defs emptyTagState_def emptyTagSheet_def)
  from empty_tag_cell_ends_lookup[OF h1 h2 h3 h4] h1 h3 o show ?thesis
    by simp
qed

subsection \<open>The tag catalog\<close>

lemma new_Set_snoc: "new_Set (xs @ [x]) = Set_add x (new_Set xs)"
  by (simp add: new_Set_def)

lemma Set_add_member: "x \<in> set s \<Longrightarrow> Set_add x s = s"
  by (simp add: Set_add_def)

lemma Set_add_fresh: "x \<notin> set s \<Longrightarrow> Set_add x s = s @ [x]"
  by (simp add: Set_add_def)

lemma new_Set_append: "new_Set (a @ c) = fold Set_add c (new_Set a)"
  by (simp add: new_Set_def)

lemma new_Set_firstOccurrences: "new_Set xs = firstOccurrences xs"
proof (induction xs rule: rev_induct)
  case Nil
  then show ?case by (simp add: new_Set_def firstOccurrences_def)
next
  case (snoc x xs)
  show ?case
  proof (cases "x \<in> set xs")
    case True
    then have "new_Set (xs @ [x]) = new_Set xs"
      by (simp add: new_Set_snoc Set_add_member set_new_Set)
    then show ?thesis using True snoc by (simp add: firstOccurrences_def)
  next
    case False
    then have "new_Set (xs @ [x]) = new_Set xs @ [x]"
      by (simp add: new_Set_snoc Set_add_fresh set_new_Set)
    then show ?thesis using False snoc by (simp add: firstOccurrences_def)
  qed
qed

lemma fold_Set_add_new_Set: "fold Set_add (new_Set b) acc = fold Set_add b acc"
proof (induction b rule: rev_induct)
  case Nil
  then show ?case by (simp add: new_Set_def)
next
  case (snoc x b)
  show ?case
  proof (cases "x \<in> set b")
    case True
    then have "new_Set (b @ [x]) = new_Set b"
      by (simp add: new_Set_snoc Set_add_member set_new_Set)
    moreover have "Set_add x (fold Set_add b acc) = fold Set_add b acc"
      using True by (simp add: Set_add_member set_fold_Set_add)
    ultimately show ?thesis using snoc by simp
  next
    case False
    then have "new_Set (b @ [x]) = new_Set b @ [x]"
      by (simp add: new_Set_snoc Set_add_fresh set_new_Set)
    then show ?thesis using snoc by simp
  qed
qed

lemma new_Set_append_new_Set: "new_Set (a @ new_Set b) = new_Set (a @ b)"
  by (simp only: new_Set_append fold_Set_add_new_Set)

lemma collectTags_spec:
  "collectTags cells acc =
     (if NonText True \<in> set cells then Inl TypeError
      else Inr (fold Set_add (cellTags cells) acc))"
  by (induction cells acc rule: collectTags.induct) (auto simp: cellTags_def)

lemma fetchTags_no_cells: "tagCells s = None \<Longrightarrow> fetchTagsFromSpreadsheet s = []"
  by (auto simp: fetchTagsFromSpreadsheet_def readTagColumn_def columnValues_def tagCells_def
      split: option.splits if_splits)

lemma fetchTags_cells:
  assumes "tagCells s = Some cells"
  shows "fetchTagsFromSpreadsheet s =
     (if NonText True \<in> set cells then [] else new_Set (cellTags cells))"
proof -
  from assms obtain spreadsheet sh where
    c: "configured (prop_spreadsheetId s)" "configured (prop_sheetName s)"
       "configured (prop_column s)"
    and o: "Spreadsheets s (the (prop_spreadsheetId s)) = Some spreadsheet"
       "spreadsheet (the (prop_sheetName s)) = Some sh"
    and r: "lastRow sh = 0 \<or> hasColumn sh (the (prop_column s))"
    and cells: "cells = map (cellAt sh (the (prop_column s))) [0..<lastRow sh]"
    by (auto simp: tagCells_def split: if_splits option.splits)
  show ?thesis
  proof (cases "lastRow sh = 0")
    case True
    then show ?thesis using c o cells
      by (simp add: fetchTagsFromSpreadsheet_def readTagColumn_def new_Set_def cellTags_def)
  next
    case False
    then have "hasColumn sh (the (prop_column s))" using r by simp
    then show ?thesis using c o cells False
      by (simp add: fetchTagsFromSpreadsheet_def readTagColumn_def columnValues_def
            collectTags_spec new_Set_def)
  qed
qed

lemma getUserTags_miss:
  assumes "prop_userTags s = None"
  shows "getUserTags s =
     (Inr (new_Set (DEFAULT_USER_TAGS @ fetchTagsFromSpreadsheet s)),
      s\<lparr>prop_userTags := Some (Parsed (new_Set (DEFAULT_USER_TAGS @ fetchTagsFromSpreadsheet s)))\<rparr>)"
  using assms by (simp add: getUserTags_def Let_def)

lemma new_Set_defaults: "new_Set DEFAULT_USER_TAGS = DEFAULT_USER_TAGS"
  by (simp add: new_Set_def Set_add_def DEFAULT_USER_TAGS_def)

lemma catalog_no_tags:
  assumes "prop_userTags s = None" and "fetchTagsFromSpreadsheet s = []"
  shows "fst (getUserTags s) = Inr DEFAULT_USER_TAGS"
proof -
  have "fst (getUserTags s) = Inr (new_Set (DEFAULT_USER_TAGS @ fetchTagsFromSpreadsheet s))"
    by (simp only: getUserTags_miss[OF assms(1)] fst_conv)
  then show ?thesis using assms(2) by (simp add: new_Set_defaults)
qed

lemma catalog_text_cells:
  assumes "prop_userTags s = None" and "tagCells s = Some cells"
    and "NonText True \<notin> set cells"
  shows "fst (getUserTags s) = Inr (firstOccurrences (DEFAULT_USER_TAGS @ cellTags cells))"
proof -
  have f: "fetchTagsFromSpreadsheet s = new_Set (cellTags cells)"
    using fetchTags_cells[OF assms(2)] assms(3) by simp
  have "fst (getUserTags s) = Inr (new_Set (DEFAULT_USER_TAGS @ fetchTagsFromSpreadsheet s))"
    by (simp only: getUserTags_miss[OF assms(1)] fst_conv)
  also have "\<dots> = Inr (new_Set (DEFAULT_USER_TAGS @ cellTags cells))"
    by (simp only: f new_Set_append_new_Set)
  also have "\<dots> = Inr (firstOccurrences (DEFAULT_USER_TAGS @ cellTags cells))"
    by (simp only: new_Set_firstOccurrences)
  finally show ?thesis .
qed

lemma catalog_memoised:
  assumes "prop_userTags s = None"
  shows "\<exists>catalog. fst (getUserTags s) = Inr catalog
           \<and> prop_userTags (snd (getUserTags s)) = Some (Parsed catalog)"
  by (simp only: getUserTags_miss[OF assms]) simp

text \<open>
  Claim C9. On a memoisation miss \<^verbatim>\<open>getUserTags\<close> returns normally and memoises what it
  returns. When the external source errors, the catalog is the list of default tags.
  When the tag column is read and every non-empty cell in it is text, the catalog is the
  default tags followed by the tags of the column, without repetitions, each tag where it
  first occurs. When the tag column is read and holds a truthy value that is not text (a
  number, a date, \<^verbatim>\<open>true\<close>), the catalog is the list of default tags again: the tags of
  the text cells of the column are not in it.
\<close>

theorem catalog_on_miss:
  assumes "prop_userTags s = None"
  shows "(\<exists>catalog. fst (getUserTags s) = Inr catalog
            \<and> prop_userTags (snd (getUserTags s)) = Some (Parsed catalog))
     \<and> (tagCells s = None \<longrightarrow> fst (getUserTags s) = Inr DEFAULT_USER_TAGS)
     \<and> (tagCells s = Some cells \<and> NonText True \<notin> set cells \<longrightarrow>
          fst (getUserTags s) = Inr (firstOccurrences (DEFAULT_USER_TAGS @ cellTags cells)))
     \<and> (tagCells s = Some cells \<and> NonText True \<in> set cells \<longrightarrow>
          fst (getUserTags s) = Inr DEFAULT_USER_TAGS)"
proof -
  have a: "tagCells s = None \<longrightarrow> fst (getUserTags s) = Inr DEFAULT_USER_TAGS"
    using catalog_no_tags[OF assms] fetchTags_no_cells by blast
  have b: "tagCells s = Some cells \<and> NonText True \<notin> set cells \<longrightarrow>
          fst (getUserTags s) = Inr (firstOccurrences (DEFAULT_USER_TAGS @ cellTags cells))"
    using catalog_text_cells[OF assms] by blast
  have c: "tagCells s = Some cells \<and> NonText True \<in> set cells \<longrightarrow>
          fst (getUserTags s) = Inr DEFAULT_USER_TAGS"
  proof
    assume h: "tagCells s = Some cells \<and> NonText True \<in> set cells"
    then have "fetchTagsFromSpreadsheet s = []"
      using fetchTags_cells[of s cells] by simp
    then show "fst (getUserTags s) = Inr DEFAULT_USER_TAGS"
      by (rule catalog_no_tags[OF assms])
  qed
  show ?thesis using catalog_memoised[OF assms] a b c by blast
qed

theorem catalog_on_miss_witness:
  "prop_userTags missingSheetState = None
   \<and> tagCells missingSheetState = None
   \<and> fst (getUserTags missingSheetState)
        = Inr [''#Work'', ''#Personal'', ''#Internal_Meeting'', ''#External_Meeting'']
   \<and> prop_userTags configuredState = None
   \<and> tagCells configuredState = Some [Text ''Sales'', Text ''#Work'', Text ''Sales'']
   \<and> fst (getUserTags configuredState)
        = Inr [''#Work'', ''#Personal'', ''#Internal_Meeting'', ''#External_Meeting'', ''#Sales'']
   \<and> prop_userTags (snd (getUserTags configuredState))
        = Some (Parsed [''#Work'', ''#Personal'', ''#Internal_Meeting'', ''#External_Meeting'',
                        ''#Sales''])
   \<and> prop_userTags numberCellState = None
   \<and> tagCells numberCellState = Some [Text ''Ops'', NonText True]
   \<and> fst (getUserTags numberCellState)
        = Inr [''#Work'', ''#Personal'', ''#Internal_Meeting'', ''#External_Meeting'']"
proof -
  have h1: "prop_userTags missingSheetState = None"
    by (simp add: sheet_defs missingSheetState_def)
  have h2: "tagCells missingSheetState = None"
    by (simp add: tagCells_def configured_def sheet_defs missingSheetState_def)
  have h3: "prop_userTags configuredState = None"
    by (simp add: sheet_defs)
  have h4: "tagCells configuredState = Some [Text ''Sales'', Text ''#Work'', Text ''Sales'']"
    by (simp add: tagCells_def configured_def sheet_defs)
  have h5: "NonText True \<notin> set [Text ''Sales'', Text ''#Work'', Text ''Sales'']"
    by simp
  have h6: "prop_userTags numberCellState = None"
    by (simp add: sheet_defs numberCellState_def)
  have h7: "tagCells numberCellState = Some [Text ''Ops'', NonText True]"
    by (simp add: tagCells_def configured_def sheet_defs upt_0_2 numberCellState_def
          numberCellSheet_def)
  have f: "firstOccurrences
             (DEFAULT_USER_TAGS @ cellTags [Text ''Sales'', Text ''#Work'', Text ''Sales''])
             = [''#Work'', ''#Personal'', ''#Internal_Meeting'', ''#External_Meeting'', ''#Sales'']"
    by (simp add: firstOccurrences_def cellTags_def withSigil_def startsWith_def
          DEFAULT_USER_TAGS_def)
  from catalog_on_miss[OF h1] h2
  have a: "fst (getUserTags missingSheetState) = Inr DEFAULT_USER_TAGS"
    by blast
  from catalog_on_miss[OF h3, of "[Text ''Sales'', Text ''#Work'', Text ''Sales'']"] h4 h5
  have b: "fst (getUserTags configuredState)
             = Inr (firstOccurrences
                 (DEFAULT_USER_TAGS @ cellTags [Text ''Sales'', Text ''#Work'', Text ''Sales'']))"
    by blast
  from catalog_on_miss[OF h3, of "[Text ''Sales'', Text ''#Work'', Text ''Sales'']"]
  obtain catalog where m: "fst (getUserTags configuredState) = Inr catalog"
    "prop_userTags (snd (getUserTags configuredState)) = Some (Parsed catalog)"
    by blast
  from catalog_on_miss[OF h6, of "[Text ''Ops'', NonText True]"] h7
  have c: "fst (getUserTags numberCellState) = Inr DEFAULT_USER_TAGS"
    by simp
  have m': "prop_userTags (snd (getUserTags configuredState))
        = Some (Parsed [''#Work'', ''#Personal'', ''#Internal_Meeting'', ''#External_Meeting'',
                        ''#Sales''])"
    using m b f by simp
  show ?thesis using h1 h2 h3 h4 h6 h7 a b c f m' by (simp add: DEFAULT_USER_TAGS_def)
qed

text \<open>
  The claim as the spec words it fails when the tag column holds a number. The tag column
  of the sheet is read, so the external source does not error, and its first cell is the
  tag \<^verbatim>\<open>Ops\<close>; the catalog is the default tags alone and \<^verbatim>\<open>#Ops\<close> is not in it.
\<close>

theorem number_cell_loses_sheet_tags:
  "prop_userTags numberCellState = None
   \<and> tagCells numberCellState = Some [Text ''Ops'', NonText True]
   \<and> cellTags [Text ''Ops'', NonText True] = [''#Ops'']
   \<and> fst (getUserTags numberCellState)
        = Inr [''#Work'', ''#Personal'', ''#Internal_Meeting'', ''#External_Meeting'']"
proof -
  have h1: "prop_userTags numberCellState = None"
    by (simp add: sheet_defs numberCellState_def)
  have h2: "tagCells numberCellState = Some [Text ''Ops'', NonText True]"
    by (simp add: tagCells_def configured_def sheet_defs upt_0_2 numberCellState_def
          numberCellSheet_def)
  have h3: "cellTags [Text ''Ops'', NonText True] = [''#Ops'']"
    by (simp add: cellTags_def withSigil_def startsWith_def)
  have f: "fetchTagsFromSpreadsheet numberCellState = []"
    by (simp add: fetchTagsFromSpreadsheet_def readTagColumn_def columnValues_def configured_def
          sheet_defs upt_0_2 numberCellState_def numberCellSheet_def)
  have "fst (getUserTags numberCellState)
          = Inr (new_Set (DEFAULT_USER_TAGS @ fetchTagsFromSpreadsheet numberCellState))"
    using h1 by (simp add: getUserTags_def Let_def)
  then have g: "fst (getUserTags numberCellState)
        = Inr [''#Work'', ''#Personal'', ''#Internal_Meeting'', ''#External_Meeting'']"
    by (simp add: f new_Set_def Set_add_def DEFAULT_USER_TAGS_def)
  show ?thesis using h1 h2 h3 g by simp
qed

end
